theory Spec2Isabelle
  imports Main
begin

section \<open>smallsh: a shallow embedding of \<^verbatim>\<open>smallsh.c\<close>\<close>

text \<open>
  The shell reads a line, splits it into words (\<^verbatim>\<open>wordsplit\<close>), expands the
  parameters of every word (\<^verbatim>\<open>expand\<close>, with \<^verbatim>\<open>param_scan\<close> and
  \<^verbatim>\<open>build_str\<close>), separates arguments from redirection operators (the parsing
  loop of \<^verbatim>\<open>main\<close>) and runs a built-in or an external command.

  A C string is modelled by the list of its bytes before the terminator, so a read of
  the byte after the last one sees the terminator. Where the code can read or write
  outside an object, the model returns a \<open>fault\<close> instead of a value. The
  \<^verbatim>\<open>int\<close> variables of the code (statuses, PIDs, counters) are \<open>int\<close> and \<open>nat\<close>:
  none of their computations comes near the limits of 32 bits, except the result of
  \<^verbatim>\<open>atoi\<close>, whose range is checked.
\<close>

subsection \<open>Characters and the C library\<close>

definition NUL :: char where
  "NUL = CHR 0x00"

definition BSLASH :: char where
  "BSLASH = CHR 0x5C"

text \<open>\<^verbatim>\<open>isspace\<close> and \<^verbatim>\<open>isdigit\<close> of the C locale.\<close>

definition isspace :: "char \<Rightarrow> bool" where
  "isspace c \<longleftrightarrow> c = CHR 0x20 \<or> c = CHR 0x09 \<or> c = CHR 0x0A \<or> c = CHR 0x0B \<or> c = CHR 0x0C \<or> c = CHR 0x0D"

definition isdigit :: "char \<Rightarrow> bool" where
  "isdigit c \<longleftrightarrow> c = CHR ''0'' \<or> c = CHR ''1'' \<or> c = CHR ''2'' \<or> c = CHR ''3'' \<or> c = CHR ''4''
     \<or> c = CHR ''5'' \<or> c = CHR ''6'' \<or> c = CHR ''7'' \<or> c = CHR ''8'' \<or> c = CHR ''9''"

text \<open>
  \<^verbatim>\<open>strchr(s, c)\<close> for a character \<open>c\<close> other than the terminator: the offset of
  the first \<open>c\<close> in \<open>s\<close>, or \<open>None\<close> for the null pointer.
\<close>

fun strchr :: "string \<Rightarrow> char \<Rightarrow> nat option" where
  "strchr [] c = None"
| "strchr (x # xs) c = (if x = c then Some 0 else map_option Suc (strchr xs c))"

text \<open>The conversion \<^verbatim>\<open>%d\<close> of \<^verbatim>\<open>printf\<close>.\<close>

definition digit_char :: "nat \<Rightarrow> char" where
  "digit_char d = ''0123456789'' ! d"

fun dec_nat :: "nat \<Rightarrow> string" where
  "dec_nat n = (if n < 10 then [digit_char n] else dec_nat (n div 10) @ [digit_char (n mod 10)])"

declare dec_nat.simps [simp del]

definition dec_str :: "int \<Rightarrow> string" where
  "dec_str v = (if v < 0 then CHR ''-'' # dec_nat (nat (- v)) else dec_nat (nat v))"

text \<open>
  \<^verbatim>\<open>snprintf(buf, n, "%d", v)\<close> into a buffer of \<open>n \<ge> 1\<close> bytes: at most \<open>n - 1\<close>
  characters of the conversion are stored, then the terminator.
\<close>

definition snprintf_d :: "int \<Rightarrow> int \<Rightarrow> string" where
  "snprintf_d n v = take (nat (n - 1)) (dec_str v)"

subsection \<open>The shell's state\<close>

text \<open>
  The globals \<^verbatim>\<open>last_status\<close> and \<^verbatim>\<open>last_bg_pid\<close>, and what the process
  sees of its surroundings: its own PID (\<^verbatim>\<open>getpid\<close>), the environment variables
  (\<^verbatim>\<open>getenv\<close>), the working directory, the files it creates (contents and
  permission bits, by the name they are opened under), the lines written to
  \<^verbatim>\<open>stderr\<close> and the processes sent \<^verbatim>\<open>SIGCONT\<close>.
\<close>

datatype errno = E2BIG | EINVAL | ENOENT | ENOTDIR | ErrnoOfCall

datatype report =
    ErrorNo errno        \<comment> \<open>\<^verbatim>\<open>"Error No. %d: %s\n"\<close>\<close>
  | ChildStopped int     \<comment> \<open>\<^verbatim>\<open>"Child process %jd stopped. Continuing.\n"\<close>\<close>

record shell =
  last_status :: int
  last_bg_pid :: int
  shell_pid :: int
  environ :: "string \<rightharpoonup> string"
  cwd :: string
  files :: "string \<rightharpoonup> string"
  modes :: "string \<rightharpoonup> nat"
  stderr_log :: "report list"
  sigcont_sent :: "int list"

definition getpid :: "shell \<Rightarrow> int" where
  "getpid st = shell_pid st"

definition getenv :: "shell \<Rightarrow> string \<Rightarrow> string option" where
  "getenv st name = environ st name"

datatype fault =
    ParamArgOverflow    \<comment> \<open>\<^verbatim>\<open>strncpy\<close> fills or overruns \<^verbatim>\<open>param_arg[64]\<close>\<close>
  | ReadPastBuffer      \<comment> \<open>a read outside the line's buffer\<close>
  | WordsOutOfBounds    \<comment> \<open>\<^verbatim>\<open>words[]\<close> is read outside the array\<close>
  | TokensOutOfBounds   \<comment> \<open>\<^verbatim>\<open>tokens[]\<close> is written outside the array\<close>
  | UninitToken         \<comment> \<open>a slot of \<^verbatim>\<open>tokens[]\<close> is read that was never written\<close>
  | NullPointer         \<comment> \<open>a null pointer is used as a string\<close>
  | AtoiRange           \<comment> \<open>\<^verbatim>\<open>atoi\<close> of a number that no \<^verbatim>\<open>int\<close> holds\<close>

subsection \<open>\<^verbatim>\<open>n_digits_counter\<close>\<close>

text \<open>
  \<^verbatim>\<open>int i = 1; while (n > 0) { n /= 10; i++; } return i;\<close>
\<close>

function n_digits_loop :: "int \<Rightarrow> int \<Rightarrow> int" where
  "n_digits_loop n i = (if n > 0 then n_digits_loop (n div 10) (i + 1) else i)"
  by pat_completeness auto
termination
  by (relation "measure (\<lambda>(n, i). nat n)") auto

declare n_digits_loop.simps [simp del]

definition n_digits_counter :: "int \<Rightarrow> int" where
  "n_digits_counter n = n_digits_loop n 1"

subsection \<open>\<^verbatim>\<open>param_scan\<close>\<close>

text \<open>
  The scan for the next parameter of a word. The position \<open>s\<close> of the C loop is the
  offset \<open>i\<close> into the word; the result is the character after the \<^verbatim>\<open>$\<close> with
  the offsets of \<^verbatim>\<open>*start\<close> and \<^verbatim>\<open>*end\<close>, or \<open>None\<close> when the function
  returns 0 and both pointers are null. Every caller passes a word, so the static
  \<^verbatim>\<open>prev\<close> is written and never read.
\<close>

function param_scan_from :: "string \<Rightarrow> nat \<Rightarrow> (char \<times> nat \<times> nat) option" where
  "param_scan_from w i =
     (if length w \<le> i then None
      else (case strchr (drop i w) (CHR ''$'') of
          None \<Rightarrow> None
        | Some k \<Rightarrow>
            (case drop (i + k + 1) w of
               [] \<Rightarrow> param_scan_from w (i + k + 1)
             | d # rest \<Rightarrow>
                 if d = CHR ''$'' \<or> d = CHR ''!'' \<or> d = CHR ''?'' then Some (d, i + k, i + k + 2)
                 else if d = CHR ''{'' then
                   (case strchr rest (CHR ''}'') of
                      Some e \<Rightarrow> Some (d, i + k, i + k + 2 + e + 1)
                    | None \<Rightarrow> param_scan_from w (i + k + 1))
                 else param_scan_from w (i + k + 1))))"
  by pat_completeness auto
termination
  by (relation "measure (\<lambda>(w, i). length w - i)") auto

declare param_scan_from.simps [simp del]

definition param_scan :: "string \<Rightarrow> (char \<times> nat \<times> nat) option" where
  "param_scan word = param_scan_from word 0"

subsection \<open>\<^verbatim>\<open>build_str\<close> and \<^verbatim>\<open>expand\<close>\<close>

text \<open>
  \<^verbatim>\<open>build_str\<close> keeps the string under construction in the static \<^verbatim>\<open>base\<close>
  (\<open>None\<close> for the null pointer). With a null \<^verbatim>\<open>start\<close> it hands the string out
  and resets; otherwise it appends the bytes it is given.
\<close>

definition build_str_reset :: "string option \<Rightarrow> string option \<times> string option" where
  "build_str_reset base = (base, None)"

definition build_str :: "string option \<Rightarrow> string \<Rightarrow> string option" where
  "build_str base s = Some ((case base of None \<Rightarrow> [] | Some b \<Rightarrow> b) @ s)"

text \<open>
  The value substituted for the parameter found at \<open>[start, end)\<close> of \<open>pos\<close>: the four
  branches of the loop body of \<^verbatim>\<open>expand\<close>. For \<^verbatim>\<open>${NAME}\<close> the name has
  \<open>end - start - 3\<close> bytes, which \<^verbatim>\<open>strncpy\<close> copies into the zeroed
  \<^verbatim>\<open>param_arg[64]\<close>: 64 bytes leave no terminator for \<^verbatim>\<open>getenv\<close>, more
  overrun the array.
\<close>

definition param_value :: "shell \<Rightarrow> string \<Rightarrow> char \<Rightarrow> nat \<Rightarrow> nat \<Rightarrow> fault + string" where
  "param_value st pos c start end =
     (if c = CHR ''!'' then
        Inr (snprintf_d (n_digits_counter (last_bg_pid st)) (last_bg_pid st))
      else if c = CHR ''$'' then
        Inr (snprintf_d (n_digits_counter (getpid st)) (getpid st))
      else if c = CHR ''?'' then
        (if last_status st = 0 then Inr ''0''
         else Inr (snprintf_d (n_digits_counter (last_status st)) (last_status st)))
      else if c = CHR ''{'' then
        (let param_digits = end - start - 3 in
         if 64 \<le> param_digits then Inl ParamArgOverflow
         else (case getenv st (take param_digits (drop (start + 2) pos)) of
                 None \<Rightarrow> Inr ''''
               | Some param_str \<Rightarrow> Inr param_str))
      else Inr '''')"

lemma strchr_Some_less: "strchr s c = Some k \<Longrightarrow> k < length s"
  by (induction s arbitrary: k) (auto split: if_splits)

lemma strchr_Some_nth: "strchr s c = Some k \<Longrightarrow> s ! k = c"
  by (induction s arbitrary: k) (auto split: if_splits)

lemma strchr_Some_take: "strchr s c = Some k \<Longrightarrow> c \<notin> set (take k s)"
  by (induction s arbitrary: k) (auto split: if_splits)

lemma strchr_None_iff: "strchr s c = None \<longleftrightarrow> c \<notin> set s"
  by (induction s) auto

lemma strchr_notin: "c \<notin> set s \<Longrightarrow> strchr s c = None"
  by (simp add: strchr_None_iff)

lemma strchr_append_first: "c \<notin> set pre \<Longrightarrow> strchr (pre @ c # post) c = Some (length pre)"
  by (induction pre) auto

lemma drop_Cons_length: "drop n w = d # rest \<Longrightarrow> length w = n + 1 + length rest"
proof -
  assume h: "drop n w = d # rest"
  have "length (drop n w) = Suc (length rest)" by (simp add: h)
  then show ?thesis by simp
qed

lemma param_scan_from_bounds:
  "param_scan_from w i = Some (c, s, e) \<Longrightarrow> i \<le> s \<and> s + 2 \<le> e \<and> e \<le> length w"
proof (induction w i rule: param_scan_from.induct)
  case (1 w i)
  show ?case
  proof (cases "length w \<le> i")
    case True
    with "1.prems" show ?thesis by (simp add: param_scan_from.simps)
  next
    case inb: False
    show ?thesis
    proof (cases "strchr (drop i w) (CHR ''$'')")
      case None
      with inb "1.prems" show ?thesis by (simp add: param_scan_from.simps)
    next
      case dollar: (Some k)
      show ?thesis
      proof (cases "drop (i + k + 1) w")
        case Nil
        with inb dollar "1.prems" "1.IH"(1) [OF inb dollar Nil] show ?thesis
          by (simp add: param_scan_from.simps [of w i])
      next
        case (Cons d rest)
        note len = drop_Cons_length [OF Cons]
        show ?thesis
        proof (cases "d = CHR ''$'' \<or> d = CHR ''!'' \<or> d = CHR ''?''")
          case True
          with inb dollar Cons "1.prems" len show ?thesis
            by (auto simp: param_scan_from.simps [of w i])
        next
          case nspecial: False
          show ?thesis
          proof (cases "d = CHR ''{''")
            case brace: True
            show ?thesis
            proof (cases "strchr rest (CHR ''}'')")
              case None
              with inb dollar Cons nspecial brace "1.prems"
                "1.IH"(2) [OF inb dollar Cons nspecial brace None]
              show ?thesis
                by (simp add: param_scan_from.simps [of w i])
            next
              case (Some e')
              with inb dollar Cons nspecial brace "1.prems" len strchr_Some_less [OF Some]
              show ?thesis
                by (auto simp: param_scan_from.simps [of w i])
            qed
          next
            case False
            with inb dollar Cons nspecial "1.prems" "1.IH"(3) [OF inb dollar Cons nspecial False]
            show ?thesis
              by (simp add: param_scan_from.simps [of w i])
          qed
        qed
      qed
    qed
  qed
qed

lemma param_scan_bounds:
  "param_scan w = Some (c, s, e) \<Longrightarrow> s + 2 \<le> e \<and> e \<le> length w"
  using param_scan_from_bounds [of w 0 c s e] by (simp add: param_scan_def)

text \<open>
  \<^verbatim>\<open>expand\<close>: scan from \<open>pos\<close>, append the bytes before the parameter (the whole rest
  when \<^verbatim>\<open>start\<close> is null), append the parameter's value, continue at \<^verbatim>\<open>end\<close>.
  The first scan and append stand before the C loop and the later ones at the end of
  its body; the recursion takes them at the head of each round.
\<close>

function expand_from :: "shell \<Rightarrow> string \<Rightarrow> string option \<Rightarrow> fault + string option" where
  "expand_from st pos base =
     (case param_scan pos of
        None \<Rightarrow> Inr (build_str base pos)
      | Some (c, start, end) \<Rightarrow>
          (case param_value st pos c start end of
             Inl f \<Rightarrow> Inl f
           | Inr v \<Rightarrow> expand_from st (drop end pos) (build_str (build_str base (take start pos)) v)))"
  by pat_completeness auto
termination
  by (relation "measure (\<lambda>(st, pos, base). length pos)") (auto dest!: param_scan_bounds)

declare expand_from.simps [simp del]

definition expand :: "shell \<Rightarrow> string \<Rightarrow> fault + string option" where
  "expand st word =
     (case expand_from st word (snd (build_str_reset None)) of
        Inl f \<Rightarrow> Inl f
      | Inr base \<Rightarrow> Inr (fst (build_str_reset base)))"

subsection \<open>\<^verbatim>\<open>wordsplit\<close>\<close>

text \<open>
  The line is a buffer of bytes (what \<^verbatim>\<open>getline\<close> allocated: the line, its
  terminator and whatever the allocation holds after it) and \<open>c\<close> an offset into it.
  A read at an offset outside the buffer is a fault. The word under construction is the
  list of the bytes stored into \<^verbatim>\<open>words[wind]\<close>; as a C string it ends at the first
  \<^verbatim>\<open>NUL\<close> stored (\<open>c_str\<close>). \<^verbatim>\<open>MAX_WORDS\<close> is the parameter \<open>max_words\<close>
  (1024 unless the build defines it), \<^verbatim>\<open>wind\<close> the number of words so far. A
  failing \<^verbatim>\<open>realloc\<close> ends the process and is not modelled.
\<close>

definition peek :: "char list \<Rightarrow> nat \<Rightarrow> fault + char" where
  "peek buf c = (if c < length buf then Inr (buf ! c) else Inl ReadPastBuffer)"

function skip_space :: "char list \<Rightarrow> nat \<Rightarrow> fault + nat" where
  "skip_space buf c =
     (case peek buf c of
        Inl f \<Rightarrow> Inl f
      | Inr ch \<Rightarrow> if ch \<noteq> NUL \<and> isspace ch then skip_space buf (c + 1) else Inr c)"
  by pat_completeness auto
termination
  by (relation "measure (\<lambda>(buf, c). length buf - c)") (auto simp: peek_def split: if_splits)

declare skip_space.simps [simp del]

function read_word :: "char list \<Rightarrow> nat \<Rightarrow> string \<Rightarrow> fault + (nat \<times> string)" where
  "read_word buf c word =
     (case peek buf c of
        Inl f \<Rightarrow> Inl f
      | Inr ch \<Rightarrow>
          if ch \<noteq> NUL \<and> \<not> isspace ch then
            (let c1 = (if ch = BSLASH then c + 1 else c) in
             case peek buf c1 of
               Inl f \<Rightarrow> Inl f
             | Inr ch1 \<Rightarrow> read_word buf (c1 + 1) (word @ [ch1]))
          else Inr (c, word))"
  by pat_completeness auto
termination
  by (relation "measure (\<lambda>(buf, c, word). length buf - c)") (auto simp: peek_def split: if_splits)

declare read_word.simps [simp del]

definition c_str :: "char list \<Rightarrow> string" where
  "c_str bytes = takeWhile (\<lambda>x. x \<noteq> NUL) bytes"

lemma skip_space_ge: "skip_space buf c = Inr c' \<Longrightarrow> c \<le> c'"
proof (induction buf c rule: skip_space.induct)
  case (1 buf c)
  then show ?case
    by (subst (asm) (2) skip_space.simps) (auto split: sum.splits if_splits)
qed

lemma read_word_ge: "read_word buf c word = Inr (c', w') \<Longrightarrow> c \<le> c'"
proof (induction buf c word rule: read_word.induct)
  case (1 buf c word)
  show ?case
  proof (cases "peek buf c")
    case (Inl f)
    with "1.prems" show ?thesis by (simp add: read_word.simps [of buf c])
  next
    case (Inr ch)
    show ?thesis
    proof (cases "ch \<noteq> NUL \<and> \<not> isspace ch")
      case False
      with Inr "1.prems" show ?thesis by (auto simp: read_word.simps [of buf c])
    next
      case True
      define c1 where "c1 = (if ch = BSLASH then c + 1 else c)"
      show ?thesis
      proof (cases "peek buf c1")
        case (Inl f)
        with Inr True "1.prems" show ?thesis
          by (simp add: read_word.simps [of buf c] c1_def)
      next
        case ch1: (Inr ch1)
        have "read_word buf (c1 + 1) (word @ [ch1]) = Inr (c', w')"
          using Inr True ch1 "1.prems" by (simp add: read_word.simps [of buf c] c1_def)
        from "1.IH" [OF Inr True c1_def ch1 this] show ?thesis by (simp add: c1_def split: if_splits)
      qed
    qed
  qed
qed

lemma read_word_gt:
  assumes "read_word buf c word = Inr (c', w')" and "peek buf c = Inr ch" and "ch \<noteq> NUL" and "\<not> isspace ch"
  shows "c < c'"
proof -
  define c1 where "c1 = (if ch = BSLASH then c + 1 else c)"
  show ?thesis
  proof (cases "peek buf c1")
    case (Inl f)
    with assms show ?thesis by (simp add: read_word.simps [of buf c] c1_def)
  next
    case (Inr ch1)
    with assms have "read_word buf (c1 + 1) (word @ [ch1]) = Inr (c', w')"
      by (simp add: read_word.simps [of buf c] c1_def)
    from read_word_ge [OF this] show ?thesis by (simp add: c1_def split: if_splits)
  qed
qed

lemma skip_space_gt:
  assumes "skip_space buf c = Inr c'" and "peek buf c = Inr ch" and "ch \<noteq> NUL" and "isspace ch"
  shows "c < c'"
proof -
  from assms have "skip_space buf (c + 1) = Inr c'"
    by (simp add: skip_space.simps [of buf c])
  from skip_space_ge [OF this] show ?thesis by simp
qed

lemma wordsplit_progress:
  assumes "peek buf c = Inr ch" and "ch \<noteq> NUL" and "read_word buf c [] = Inr (c1, word)"
    and "skip_space buf c1 = Inr c2"
  shows "length buf - c2 < length buf - c"
proof -
  have inb: "c < length buf" using assms(1) by (simp add: peek_def split: if_splits)
  have "c < c2"
  proof (cases "isspace ch")
    case True
    with assms have "c1 = c" by (simp add: read_word.simps [of buf c])
    with assms True skip_space_gt [of buf c c2 ch] show ?thesis by simp
  next
    case False
    from read_word_gt [OF assms(3) assms(1) assms(2) False] skip_space_ge [OF assms(4)]
    show ?thesis by simp
  qed
  with inb show ?thesis by simp
qed

function wordsplit_loop :: "nat \<Rightarrow> char list \<Rightarrow> nat \<Rightarrow> string list \<Rightarrow> fault + string list" where
  "wordsplit_loop max_words buf c words =
     (case peek buf c of
        Inl f \<Rightarrow> Inl f
      | Inr ch \<Rightarrow>
          if ch = NUL then Inr words
          else if length words = max_words then Inr words
          else if ch = CHR ''#'' then Inr words
          else
            (case read_word buf c [] of
               Inl f \<Rightarrow> Inl f
             | Inr (c1, word) \<Rightarrow>
                 (case skip_space buf c1 of
                    Inl f \<Rightarrow> Inl f
                  | Inr c2 \<Rightarrow> wordsplit_loop max_words buf c2 (words @ [c_str word]))))"
  by pat_completeness auto
termination
  by (relation "measure (\<lambda>(max_words, buf, c, words). length buf - c)")
     (auto intro: wordsplit_progress)

declare wordsplit_loop.simps [simp del]

definition wordsplit :: "nat \<Rightarrow> char list \<Rightarrow> fault + string list" where
  "wordsplit max_words buf =
     (case skip_space buf 0 of
        Inl f \<Rightarrow> Inl f
      | Inr c \<Rightarrow> wordsplit_loop max_words buf c [])"

subsection \<open>The operating system\<close>

text \<open>
  What a run of the shell does next: return to the prompt (\<^verbatim>\<open>goto prompt\<close>), end
  the process (\<^verbatim>\<open>exit(n)\<close>), or behaviour that C leaves undefined.
\<close>

datatype outcome = Prompt | Exit int | Undefined fault

text \<open>
  The answers of the system calls, which the model takes as given instead of computing
  them from permissions and directories: whether \<^verbatim>\<open>access(path, W_OK)\<close>,
  \<^verbatim>\<open>fopen(path, "w")\<close> and \<^verbatim>\<open>chmod(path, 0777)\<close> succeed, and, from a
  working directory, whether \<^verbatim>\<open>access(path, F_OK)\<close> succeeds and which directory
  \<^verbatim>\<open>chdir(path)\<close> enters (\<open>None\<close> when it fails).
\<close>

record os =
  access_w_ok :: "string \<Rightarrow> bool"
  fopen_w_ok :: "string \<Rightarrow> bool"
  chmod_ok :: "string \<Rightarrow> bool"
  access_f_ok :: "string \<Rightarrow> string \<Rightarrow> bool"
  chdir_to :: "string \<Rightarrow> string \<Rightarrow> string option"

text \<open>
  \<^verbatim>\<open>fprintf(stderr, "Error No. %d: %s\n", errno, strerror(errno))\<close>, and the
  effect of a successful \<^verbatim>\<open>fopen(path, "w")\<close>: the file exists and is empty.
\<close>

definition report :: "errno \<Rightarrow> shell \<Rightarrow> shell" where
  "report e st = st\<lparr>stderr_log := stderr_log st @ [ErrorNo e]\<rparr>"

definition fopen_w :: "shell \<Rightarrow> string \<Rightarrow> shell" where
  "fopen_w st path = st\<lparr>files := (files st)(path \<mapsto> [])\<rparr>"

definition EXIT_FAILURE :: int where
  "EXIT_FAILURE = 1"

subsection \<open>\<^verbatim>\<open>open_write\<close>\<close>

text \<open>
  Both branches open the file for writing; the first, taken when the file is absent or
  not writable, also sets its permission bits to 0777 (511). A failing call prints the
  error and ends the shell with \<^verbatim>\<open>EXIT_FAILURE\<close>.
\<close>

definition open_write :: "os \<Rightarrow> shell \<Rightarrow> string option \<Rightarrow> shell \<times> (outcome + unit)" where
  "open_write sys st write =
     (case write of
        None \<Rightarrow> (st, Inl (Undefined NullPointer))
      | Some path \<Rightarrow>
          if \<not> access_w_ok sys path then
            (if fopen_w_ok sys path then
               (let st1 = fopen_w st path in
                if chmod_ok sys path then (st1\<lparr>modes := (modes st1)(path \<mapsto> 511)\<rparr>, Inr ())
                else (report ErrnoOfCall st1, Inl (Exit EXIT_FAILURE)))
             else (report ErrnoOfCall st, Inl (Exit EXIT_FAILURE)))
          else
            (if fopen_w_ok sys path then (fopen_w st path, Inr ())
             else (report ErrnoOfCall st, Inl (Exit EXIT_FAILURE))))"

subsection \<open>The parsing loop of \<^verbatim>\<open>main\<close>\<close>

text \<open>
  The flags and the argument vector built from the words: \<^verbatim>\<open>bg\<close>, the pointers
  \<^verbatim>\<open>read\<close>, \<^verbatim>\<open>write\<close> and \<^verbatim>\<open>append\<close> (the fields \<open>read_file\<close>,
  \<open>write_file\<close> and \<open>append_file\<close>; \<open>None\<close> is the null pointer), the local array
  \<^verbatim>\<open>tokens\<close> (a slot never written has no value) and \<^verbatim>\<open>n_tokens\<close>.
\<close>

record cmd =
  bg :: bool
  read_file :: "string option"
  write_file :: "string option"
  append_file :: "string option"
  tokens :: "nat \<rightharpoonup> string option"
  n_tokens :: int

text \<open>
  \<^verbatim>\<open>words\<close> is the global array after the expansion: its length is
  \<^verbatim>\<open>MAX_WORDS\<close>, the first \<^verbatim>\<open>n_words\<close> slots hold the words of this line and
  the others what earlier lines left there (a word, or the null pointer). \<^verbatim>\<open>tokens\<close>
  has as many slots as \<^verbatim>\<open>words\<close>.
\<close>

definition read_slot :: "string option list \<Rightarrow> nat \<Rightarrow> fault + string option" where
  "read_slot words k = (if k < length words then Inr (words ! k) else Inl WordsOutOfBounds)"

definition tok_store ::
  "nat \<Rightarrow> (nat \<rightharpoonup> string option) \<Rightarrow> int \<Rightarrow> string option \<Rightarrow> fault + (nat \<rightharpoonup> string option)" where
  "tok_store max_words toks k v =
     (if 0 \<le> k \<and> k < int max_words then Inr (toks(nat k \<mapsto> v)) else Inl TokensOutOfBounds)"

text \<open>
  One round of \<^verbatim>\<open>for (i; i < n_words; i++)\<close>. A redirection operator takes
  \<^verbatim>\<open>words[i + 1]\<close> without comparing \<^verbatim>\<open>i + 1\<close> to \<^verbatim>\<open>n_words\<close>, and \<^verbatim>\<open>>\<close>
  opens and closes the file at once.
\<close>

function parse_loop ::
  "os \<Rightarrow> string option list \<Rightarrow> nat \<Rightarrow> nat \<Rightarrow> nat \<Rightarrow> shell \<Rightarrow> cmd \<Rightarrow> shell \<times> (outcome + nat \<times> nat \<times> cmd)" where
  "parse_loop sys words n_words i op st c =
     (if \<not> i < n_words then (st, Inr (i, op, c))
      else
        (case read_slot words i of
           Inl f \<Rightarrow> (st, Inl (Undefined f))
         | Inr None \<Rightarrow> (st, Inl (Undefined NullPointer))
         | Inr (Some w) \<Rightarrow>
             if i = n_words - 1 \<and> w = ''&'' then
               parse_loop sys words n_words (i + 1) (op + 1) st (c\<lparr>bg := True\<rparr>)
             else if w = ''>'' then
               (case read_slot words (i + 1) of
                  Inl f \<Rightarrow> (st, Inl (Undefined f))
                | Inr write \<Rightarrow>
                    (case open_write sys st write of
                       (st', Inl stop) \<Rightarrow> (st', Inl stop)
                     | (st', Inr output) \<Rightarrow>
                         parse_loop sys words n_words (i + 2) (op + 2) st' (c\<lparr>write_file := write\<rparr>)))
             else if w = ''<'' then
               (case read_slot words (i + 1) of
                  Inl f \<Rightarrow> (st, Inl (Undefined f))
                | Inr read \<Rightarrow> parse_loop sys words n_words (i + 2) (op + 2) st (c\<lparr>read_file := read\<rparr>))
             else if w = ''>>'' then
               (case read_slot words (i + 1) of
                  Inl f \<Rightarrow> (st, Inl (Undefined f))
                | Inr target \<Rightarrow> parse_loop sys words n_words (i + 2) (op + 2) st (c\<lparr>append_file := target\<rparr>))
             else
               (case tok_store (length words) (tokens c) (int i - int op) (Some w) of
                  Inl f \<Rightarrow> (st, Inl (Undefined f))
                | Inr toks \<Rightarrow>
                    parse_loop sys words n_words (i + 1) op st
                      (c\<lparr>tokens := toks, n_tokens := n_tokens c + 1\<rparr>))))"
  by pat_completeness auto
termination
  by (relation "measure (\<lambda>(sys, words, n_words, i, op, st, c). n_words - i)") auto

declare parse_loop.simps [simp del]

text \<open>After the loop: \<^verbatim>\<open>tokens[i - op] = NULL; n_tokens++;\<close>\<close>

definition no_cmd :: cmd where
  "no_cmd = \<lparr>bg = False, read_file = None, write_file = None, append_file = None,
             tokens = Map.empty, n_tokens = 0\<rparr>"

definition parse :: "os \<Rightarrow> string option list \<Rightarrow> nat \<Rightarrow> shell \<Rightarrow> shell \<times> (outcome + cmd)" where
  "parse sys words n_words st =
     (case parse_loop sys words n_words 0 0 st no_cmd of
        (st', Inl stop) \<Rightarrow> (st', Inl stop)
      | (st', Inr (i, op, c)) \<Rightarrow>
          (case tok_store (length words) (tokens c) (int i - int op) None of
             Inl f \<Rightarrow> (st', Inl (Undefined f))
           | Inr toks \<Rightarrow> (st', Inr (c\<lparr>tokens := toks, n_tokens := n_tokens c + 1\<rparr>))))"

subsection \<open>The built-in commands and the external command\<close>

text \<open>
  \<^verbatim>\<open>atoi\<close>: leading whitespace, an optional sign, then digits. The C standard
  leaves a value outside \<^verbatim>\<open>int\<close> undefined.
\<close>

definition INT_MAX :: int where
  "INT_MAX = 2147483647"

definition INT_MIN :: int where
  "INT_MIN = - 2147483648"

definition digit_val :: "char \<Rightarrow> int" where
  "digit_val c = int (of_char c) - 48"

fun atoi_digits :: "int \<Rightarrow> string \<Rightarrow> int" where
  "atoi_digits acc [] = acc"
| "atoi_digits acc (c # cs) = (if isdigit c then atoi_digits (10 * acc + digit_val c) cs else acc)"

definition atoi :: "string \<Rightarrow> fault + int" where
  "atoi s =
     (let t = dropWhile isspace s;
          v = (case t of
                 [] \<Rightarrow> 0
               | c # r \<Rightarrow>
                   if c = CHR ''-'' then - atoi_digits 0 r
                   else if c = CHR ''+'' then atoi_digits 0 r
                   else atoi_digits 0 t)
      in if INT_MIN \<le> v \<and> v \<le> INT_MAX then Inr v else Inl AtoiRange)"

text \<open>
  \<^verbatim>\<open>exit\<close>: the argument is accepted when its first byte is a digit
  (\<^verbatim>\<open>isdigit(*tokens[1])\<close>, the terminator for an empty argument). Without an
  argument the status is \<^verbatim>\<open>atoi(expand("$?"))\<close>.
\<close>

definition first_byte :: "string \<Rightarrow> char" where
  "first_byte s = (case s of [] \<Rightarrow> NUL | c # _ \<Rightarrow> c)"

definition default_exit :: "shell \<Rightarrow> shell \<times> outcome" where
  "default_exit st =
     (case expand st ''$?'' of
        Inl f \<Rightarrow> (st, Undefined f)
      | Inr None \<Rightarrow> (st, Undefined NullPointer)
      | Inr (Some s) \<Rightarrow>
          (case atoi s of
             Inl f \<Rightarrow> (st, Undefined f)
           | Inr n \<Rightarrow> (st, Exit n)))"

definition token_at :: "cmd \<Rightarrow> nat \<Rightarrow> fault + string" where
  "token_at c k =
     (case tokens c k of
        None \<Rightarrow> Inl UninitToken
      | Some None \<Rightarrow> Inl NullPointer
      | Some (Some s) \<Rightarrow> Inr s)"

definition builtin_exit :: "shell \<Rightarrow> cmd \<Rightarrow> shell \<times> outcome" where
  "builtin_exit st c =
     (if n_tokens c - 1 \<ge> 3 then (report E2BIG st, Prompt)
      else if n_tokens c - 1 = 2 then
        (case token_at c 1 of
           Inl f \<Rightarrow> (st, Undefined f)
         | Inr arg \<Rightarrow>
             if isdigit (first_byte arg) then
               (case atoi arg of
                  Inl f \<Rightarrow> (st, Undefined f)
                | Inr n \<Rightarrow> (st, Exit n))
             else (report EINVAL st, Prompt))
      else default_exit st)"

text \<open>\<^verbatim>\<open>cd\<close>.\<close>

definition chdir :: "os \<Rightarrow> shell \<Rightarrow> string \<Rightarrow> shell option" where
  "chdir sys st path = map_option (\<lambda>d. st\<lparr>cwd := d\<rparr>) (chdir_to sys (cwd st) path)"

definition builtin_cd :: "os \<Rightarrow> shell \<Rightarrow> cmd \<Rightarrow> shell \<times> outcome" where
  "builtin_cd sys st c =
     (if n_tokens c - 1 \<ge> 3 then (report E2BIG st, Prompt)
      else if n_tokens c - 1 = 2 then
        (case token_at c 1 of
           Inl f \<Rightarrow> (st, Undefined f)
         | Inr path \<Rightarrow>
             if access_f_ok sys (cwd st) path then
               (case chdir sys st path of
                  None \<Rightarrow> (report ENOENT st, Prompt)
                | Some st' \<Rightarrow> (st', Prompt))
             else (report ENOTDIR st, Prompt))
      else
        (case expand st ''${HOME}'' of
           Inl f \<Rightarrow> (st, Undefined f)
         | Inr None \<Rightarrow> (st, Undefined NullPointer)
         | Inr (Some home) \<Rightarrow>
             (case chdir sys st home of
                None \<Rightarrow> (report ENOENT st, Prompt)
              | Some st' \<Rightarrow> (st', Prompt))))"

text \<open>
  The macros of \<^verbatim>\<open><sys/wait.h>\<close> as glibc defines them on Linux, on the
  \<^verbatim>\<open>int\<close> that \<^verbatim>\<open>waitpid\<close> stored: \<^verbatim>\<open>status & 0x7f\<close> is \<open>status mod 128\<close> and
  \<^verbatim>\<open>(status & 0xff00) >> 8\<close> is \<open>(status div 256) mod 256\<close>.
\<close>

definition WTERMSIG :: "int \<Rightarrow> int" where
  "WTERMSIG status = status mod 128"

definition WEXITSTATUS :: "int \<Rightarrow> int" where
  "WEXITSTATUS status = (status div 256) mod 256"

definition WIFEXITED :: "int \<Rightarrow> bool" where
  "WIFEXITED status \<longleftrightarrow> WTERMSIG status = 0"

definition signed_char :: "int \<Rightarrow> int" where
  "signed_char x = (let y = x mod 256 in if y < 128 then y else y - 256)"

definition WIFSIGNALED :: "int \<Rightarrow> bool" where
  "WIFSIGNALED status \<longleftrightarrow> signed_char (status mod 128 + 1) div 2 > 0"

definition WIFSTOPPED :: "int \<Rightarrow> bool" where
  "WIFSTOPPED status \<longleftrightarrow> status mod 256 = 127"

text \<open>
  The parent after \<^verbatim>\<open>fork\<close>: \<^verbatim>\<open>fork_pid\<close> is what \<^verbatim>\<open>fork\<close> returned to it and
  \<^verbatim>\<open>child_exit\<close> the status that \<^verbatim>\<open>waitpid(fork_pid, &child_exit, WUNTRACED)\<close>
  stored. The child's side (the redirections and \<^verbatim>\<open>execvp\<close>) is not modelled.
\<close>

definition external_parent :: "shell \<Rightarrow> cmd \<Rightarrow> int \<Rightarrow> int \<Rightarrow> shell \<times> outcome" where
  "external_parent st c fork_pid child_exit =
     (if fork_pid = - 1 then (report ErrnoOfCall st, Prompt)
      else if bg c then (st\<lparr>last_bg_pid := fork_pid\<rparr>, Prompt)
      else if WIFSIGNALED child_exit then
        (st\<lparr>last_status := 128 + WTERMSIG child_exit\<rparr>, Prompt)
      else if WIFSTOPPED child_exit then
        (st\<lparr>stderr_log := stderr_log st @ [ChildStopped fork_pid],
            last_bg_pid := fork_pid,
            last_status := child_exit,
            sigcont_sent := sigcont_sent st @ [fork_pid]\<rparr>, Prompt)
      else (st\<lparr>last_status := WEXITSTATUS child_exit\<rparr>, Prompt))"

definition execute :: "os \<Rightarrow> int \<Rightarrow> int \<Rightarrow> shell \<Rightarrow> cmd \<Rightarrow> shell \<times> outcome" where
  "execute sys fork_pid child_exit st c =
     (case tokens c 0 of
        None \<Rightarrow> (st, Undefined UninitToken)
      | Some None \<Rightarrow> (st, Prompt)
      | Some (Some name) \<Rightarrow>
          if name = ''exit'' then builtin_exit st c
          else if name = ''cd'' then builtin_cd sys st c
          else external_parent st c fork_pid child_exit)"

text \<open>
  One line from the tokenizer to the command: \<^verbatim>\<open>wordsplit\<close>, the expansion of every
  word in place, the parsing loop and the command. The pair carries the array
  \<^verbatim>\<open>words\<close> and the state from one line to the next.
\<close>

fun expand_words :: "shell \<Rightarrow> string list \<Rightarrow> fault + string option list" where
  "expand_words st [] = Inr []"
| "expand_words st (w # ws) =
     (case expand st w of
        Inl f \<Rightarrow> Inl f
      | Inr exp_word \<Rightarrow>
          (case expand_words st ws of
             Inl f \<Rightarrow> Inl f
           | Inr rest \<Rightarrow> Inr (exp_word # rest)))"

definition run_line ::
  "os \<Rightarrow> int \<Rightarrow> int \<Rightarrow> char list \<Rightarrow> string option list \<times> shell \<Rightarrow> (string option list \<times> shell) \<times> outcome" where
  "run_line sys fork_pid child_exit line ws =
     (case ws of (words, st) \<Rightarrow>
        (case wordsplit (length words) line of
           Inl f \<Rightarrow> ((words, st), Undefined f)
         | Inr raw \<Rightarrow>
             (case expand_words st raw of
                Inl f \<Rightarrow> ((words, st), Undefined f)
              | Inr expanded \<Rightarrow>
                  (let words' = expanded @ drop (length expanded) words in
                   case parse sys words' (length expanded) st of
                     (st', Inl stop) \<Rightarrow> ((words', st'), stop)
                   | (st', Inr c) \<Rightarrow>
                       (case execute sys fork_pid child_exit st' c of
                          (st'', out) \<Rightarrow> ((words', st''), out))))))"

subsection \<open>Values for the examples\<close>

text \<open>A line as \<^verbatim>\<open>getline\<close> returns it, and an operating system that refuses nothing.\<close>

definition line_of :: "string \<Rightarrow> char list" where
  "line_of s = s @ [CHR 0x0A, NUL]"

definition os_ok :: os where
  "os_ok = \<lparr>access_w_ok = (\<lambda>p. False), fopen_w_ok = (\<lambda>p. True), chmod_ok = (\<lambda>p. True),
            access_f_ok = (\<lambda>d p. True), chdir_to = (\<lambda>d p. Some p)\<rparr>"

subsection \<open>Notions of the specification\<close>

text \<open>
  The specification's notion of a parameter token, independent of the scan: some suffix
  of the word starts with \<^verbatim>\<open>$$\<close>, \<^verbatim>\<open>$!\<close>, \<^verbatim>\<open>$?\<close>, or with
  \<^verbatim>\<open>${\<close> that a later \<^verbatim>\<open>}\<close> closes. A \<^verbatim>\<open>$\<close> followed by anything else
  (or by nothing) and a \<^verbatim>\<open>${\<close> that is never closed are not tokens.
\<close>

fun token_start :: "string \<Rightarrow> bool" where
  "token_start [] = False"
| "token_start (d # ds) =
     (d = CHR ''$'' \<or> d = CHR ''!'' \<or> d = CHR ''?'' \<or> (d = CHR ''{'' \<and> CHR ''}'' \<in> set ds))"

fun has_param_token :: "string \<Rightarrow> bool" where
  "has_param_token [] = False"
| "has_param_token (c # cs) = ((c = CHR ''$'' \<and> token_start cs) \<or> has_param_token cs)"

text \<open>Prefixing the string already built: used to state what a word expands to.\<close>

definition prepend :: "string \<Rightarrow> fault + string option \<Rightarrow> fault + string option" where
  "prepend b r = (case r of Inl f \<Rightarrow> Inl f | Inr None \<Rightarrow> Inr (Some b) | Inr (Some s) \<Rightarrow> Inr (Some (b @ s)))"

text \<open>A scan result moved right by \<open>n\<close> bytes.\<close>

definition shift :: "nat \<Rightarrow> (char \<times> nat \<times> nat) option \<Rightarrow> (char \<times> nat \<times> nat) option" where
  "shift n r = map_option (\<lambda>(c, s, e). (c, n + s, n + e)) r"

text \<open>
  The specification's tokenizer. \<open>runs sep xs\<close> are the maximal runs of the elements of
  \<open>xs\<close> that \<open>sep\<close> does not hold of, in order. Read as the claim puts it
  (\<open>spec_words\<close>), the words are the runs of characters that are not whitespace, up to
  the first run that starts with \<^verbatim>\<open>#\<close>, and no more than \<open>max_words\<close> of them.
\<close>

function runs :: "('a \<Rightarrow> bool) \<Rightarrow> 'a list \<Rightarrow> 'a list list" where
  "runs sep [] = []"
| "runs sep (x # xs) =
     (if sep x then runs sep xs
      else takeWhile (\<lambda>y. \<not> sep y) (x # xs) # runs sep (dropWhile (\<lambda>y. \<not> sep y) xs))"
  by pat_completeness auto
termination
  by (relation "measure (\<lambda>(sep, xs). length xs)") (auto simp: length_dropWhile_le le_imp_less_Suc)

definition comment_word :: "string \<Rightarrow> bool" where
  "comment_word w = (case w of [] \<Rightarrow> False | c # _ \<Rightarrow> c = CHR ''#'')"

definition spec_words :: "nat \<Rightarrow> string \<Rightarrow> string list" where
  "spec_words max_words line =
     take max_words (takeWhile (\<lambda>w. \<not> comment_word w) (runs isspace line))"

text \<open>
  With the backslash rule of section 4.1 (\<open>spec_words_esc\<close>): a backslash and the
  character after it stand for that character, marked as escaped; a word ends at
  whitespace that is not escaped, and a comment starts at a \<^verbatim>\<open>#\<close> that is not escaped
  and begins a word. A line is \<open>dangling\<close> when its last character is a backslash that
  escapes nothing.
\<close>

fun unescape :: "string \<Rightarrow> (char \<times> bool) list" where
  "unescape [] = []"
| "unescape [c] = [(c, False)]"
| "unescape (c # d # cs) =
     (if c = BSLASH then (d, True) # unescape cs else (c, False) # unescape (d # cs))"

fun dangling :: "string \<Rightarrow> bool" where
  "dangling [] = False"
| "dangling [c] = (c = BSLASH)"
| "dangling (c # d # cs) = (if c = BSLASH then dangling cs else dangling (d # cs))"

definition blank :: "char \<times> bool \<Rightarrow> bool" where
  "blank it \<longleftrightarrow> isspace (fst it) \<and> \<not> snd it"

definition comment_run :: "(char \<times> bool) list \<Rightarrow> bool" where
  "comment_run r = (case r of [] \<Rightarrow> False | it # _ \<Rightarrow> it = (CHR ''#'', False))"

definition spec_words_esc :: "nat \<Rightarrow> string \<Rightarrow> string list" where
  "spec_words_esc max_words line =
     take max_words (map (map fst) (takeWhile (\<lambda>r. \<not> comment_run r) (runs blank (unescape line))))"

text \<open>The number of bytes that the inner loop of \<^verbatim>\<open>wordsplit\<close> reads for the word at the head of a string.\<close>

fun word_len :: "string \<Rightarrow> nat" where
  "word_len [] = 0"
| "word_len [c] = (if isspace c then 0 else 1)"
| "word_len (c # d # cs) =
     (if isspace c then 0 else if c = BSLASH then 2 + word_len cs else 1 + word_len (d # cs))"

text \<open>
  Which \<^verbatim>\<open>>\<close> of a word sequence is the operator: a redirection operator takes the word
  after it as its target, whatever that word is, so a sequence is \<open>complete\<close> when it
  splits into arguments and operator-target pairs, and the word after a complete
  sequence is read as an operator or an argument. \<open>write_targets\<close> are the targets of
  \<^verbatim>\<open>>\<close> in such a sequence, and \<open>opens\<close> says that \<^verbatim>\<open>open_write\<close> returns for a path.
\<close>

definition is_redir :: "string \<Rightarrow> bool" where
  "is_redir w \<longleftrightarrow> w = ''<'' \<or> w = ''>'' \<or> w = ''>>''"

fun complete :: "string list \<Rightarrow> bool" where
  "complete [] = True"
| "complete [w] = (\<not> is_redir w)"
| "complete (w # t # rest) = (if is_redir w then complete rest else complete (t # rest))"

fun write_targets :: "string list \<Rightarrow> string list" where
  "write_targets [] = []"
| "write_targets [w] = []"
| "write_targets (w # t # rest) =
     (if w = ''>'' then t # write_targets rest
      else if is_redir w then write_targets rest
      else write_targets (t # rest))"

definition opens :: "os \<Rightarrow> string \<Rightarrow> bool" where
  "opens sys p \<longleftrightarrow> fopen_w_ok sys p \<and> (access_w_ok sys p \<or> chmod_ok sys p)"

text \<open>A state for the examples.\<close>

definition st0 :: shell where
  "st0 = \<lparr>last_status = 0, last_bg_pid = 0, shell_pid = 4242, environ = Map.empty,
          cwd = ''/'', files = Map.empty, modes = Map.empty, stderr_log = [], sigcont_sent = []\<rparr>"

text \<open>
  More values for the examples: the command with a given argument vector and no
  redirection, an operating system with one directory that can be entered, and a state
  with a file that has contents.
\<close>

definition cmd_of :: "string list \<Rightarrow> cmd" where
  "cmd_of argv =
     \<lparr>bg = False, read_file = None, write_file = None, append_file = None,
      tokens = (\<lambda>k. if k < length argv then Some (Some (argv ! k))
                     else if k = length argv then Some None else None),
      n_tokens = int (length argv) + 1\<rparr>"

definition os_dirs :: os where
  "os_dirs = os_ok\<lparr>access_f_ok := (\<lambda>d p. p = ''/home/u'' \<or> p = ''/root''),
                   chdir_to := (\<lambda>d p. if p = ''/home/u'' then Some p else None)\<rparr>"

definition st_old :: shell where
  "st_old = st0\<lparr>files := [''out'' \<mapsto> ''old contents'']\<rparr>"

section \<open>Properties\<close>

subsection \<open>The scan and the expansion\<close>

lemma has_param_token_drop: "\<not> has_param_token w \<Longrightarrow> \<not> has_param_token (drop n w)"
proof (induction w arbitrary: n)
  case Nil
  then show ?case by simp
next
  case (Cons a w)
  then show ?case by (cases n) auto
qed

lemma no_token_at:
  assumes "\<not> has_param_token w" and "w ! j = CHR ''$''" and "drop (j + 1) w = d # rest"
  shows "d \<noteq> CHR ''$'' \<and> d \<noteq> CHR ''!'' \<and> d \<noteq> CHR ''?'' \<and> (d = CHR ''{'' \<longrightarrow> strchr rest (CHR ''}'') = None)"
proof -
  have len: "length w = j + 2 + length rest" using drop_Cons_length [OF assms(3)] by simp
  have "drop j w = w ! j # drop (Suc j) w"
    using len by (simp add: Cons_nth_drop_Suc)
  then have dj: "drop j w = CHR ''$'' # d # rest" using assms(2,3) by simp
  have "\<not> has_param_token (drop j w)" using assms(1) by (rule has_param_token_drop)
  then show ?thesis unfolding dj by (auto simp: strchr_None_iff)
qed

lemma param_scan_from_None:
  "\<not> has_param_token w \<Longrightarrow> param_scan_from w i = None"
proof (induction w i rule: param_scan_from.induct)
  case (1 w i)
  show ?case
  proof (cases "length w \<le> i")
    case True
    then show ?thesis by (simp add: param_scan_from.simps)
  next
    case inb: False
    show ?thesis
    proof (cases "strchr (drop i w) (CHR ''$'')")
      case None
      with inb show ?thesis by (simp add: param_scan_from.simps)
    next
      case dollar: (Some k)
      have at: "w ! (i + k) = CHR ''$''"
        using strchr_Some_nth [OF dollar] strchr_Some_less [OF dollar] by simp
      show ?thesis
      proof (cases "drop (i + k + 1) w")
        case Nil
        with inb dollar "1.IH"(1) [OF inb dollar Nil "1.prems"] show ?thesis
          by (simp add: param_scan_from.simps [of w i])
      next
        case (Cons d rest)
        note nt = no_token_at [OF "1.prems" at Cons]
        then have nspecial: "\<not> (d = CHR ''$'' \<or> d = CHR ''!'' \<or> d = CHR ''?'')" by simp
        show ?thesis
        proof (cases "d = CHR ''{''")
          case brace: True
          with nt have none: "strchr rest (CHR ''}'') = None" by simp
          from inb dollar Cons nspecial brace none
            "1.IH"(2) [OF inb dollar Cons nspecial brace none "1.prems"]
          show ?thesis by (simp add: param_scan_from.simps [of w i])
        next
          case False
          with inb dollar Cons nspecial "1.IH"(3) [OF inb dollar Cons nspecial False "1.prems"]
          show ?thesis by (simp add: param_scan_from.simps [of w i])
        qed
      qed
    qed
  qed
qed

lemma expand_no_token: "\<not> has_param_token w \<Longrightarrow> expand st w = Inr (Some w)"
  by (simp add: expand_def expand_from.simps [of st w] param_scan_def param_scan_from_None
      build_str_def build_str_reset_def)

lemma n_digits_loop_pos:
  "0 < n \<Longrightarrow> n_digits_loop n i = i + int (length (dec_nat (nat n)))"
proof (induction n i rule: n_digits_loop.induct)
  case (1 n i)
  show ?case
  proof (cases "n < 10")
    case True
    then have "n div 10 = 0" using "1.prems" by simp
    then have "n_digits_loop n i = i + 1"
      using "1.prems" by (simp add: n_digits_loop.simps [of n i] n_digits_loop.simps [of 0])
    moreover have "nat n < 10" using True by arith
    then have "dec_nat (nat n) = [digit_char (nat n)]"
      by (simp add: dec_nat.simps [of "nat n"])
    ultimately show ?thesis by simp
  next
    case False
    then have pos: "0 < n div 10" by simp
    have "nat (n div 10) = nat n div 10" using "1.prems" by (simp add: nat_div_distrib)
    moreover have "\<not> nat n < 10" using False by arith
    ultimately have "dec_nat (nat n) = dec_nat (nat (n div 10)) @ [digit_char (nat n mod 10)]"
      by (simp add: dec_nat.simps [of "nat n"])
    moreover have "n_digits_loop n i = n_digits_loop (n div 10) (i + 1)"
      using "1.prems" by (simp add: n_digits_loop.simps [of n i])
    ultimately show ?thesis using "1.IH" [OF "1.prems" pos] by simp
  qed
qed

lemma snprintf_d_pos: "0 < v \<Longrightarrow> snprintf_d (n_digits_counter v) v = dec_str v"
  by (simp add: snprintf_d_def n_digits_counter_def n_digits_loop_pos dec_str_def)

lemma snprintf_d_nonpos: "v \<le> 0 \<Longrightarrow> snprintf_d (n_digits_counter v) v = []"
  by (simp add: snprintf_d_def n_digits_counter_def n_digits_loop.simps [of v])

lemma dec_str_0: "dec_str 0 = ''0''"
  by (simp add: dec_str_def dec_nat.simps digit_char_def)

lemma param_scan_special:
  assumes "CHR ''$'' \<notin> set pre" and "d = CHR ''$'' \<or> d = CHR ''!'' \<or> d = CHR ''?''"
  shows "param_scan (pre @ CHR ''$'' # d # post) = Some (d, length pre, length pre + 2)"
  using assms
  by (simp add: param_scan_def param_scan_from.simps [of _ 0] strchr_append_first)

lemma param_scan_brace:
  assumes "CHR ''$'' \<notin> set pre" and "CHR ''}'' \<notin> set name"
  shows "param_scan (pre @ CHR ''$'' # CHR ''{'' # name @ CHR ''}'' # post)
           = Some (CHR ''{'', length pre, length pre + length name + 3)"
  using assms
  by (simp add: param_scan_def param_scan_from.simps [of _ 0] strchr_append_first)

lemma expand_from_not_null: "expand_from st w base \<noteq> Inr None"
proof (induction st w base rule: expand_from.induct)
  case (1 st pos base)
  show ?case
  proof (cases "param_scan pos")
    case None
    then show ?thesis by (simp add: expand_from.simps [of st pos] build_str_def)
  next
    case (Some t)
    obtain c s e where t: "t = (c, s, e)" by (cases t)
    show ?thesis
    proof (cases "param_value st pos c s e")
      case (Inl f)
      with Some t show ?thesis by (simp add: expand_from.simps [of st pos])
    next
      case (Inr v)
      with Some t "1.IH" [OF Some [unfolded t] refl refl Inr] show ?thesis
        by (simp add: expand_from.simps [of st pos])
    qed
  qed
qed

lemma expand_from_acc:
  "expand_from st w (Some b) = prepend b (expand_from st w None)"
proof (induction "length w" arbitrary: w b rule: less_induct)
  case less
  show ?case
  proof (cases "param_scan w")
    case None
    then show ?thesis by (simp add: expand_from.simps [of st w] build_str_def prepend_def)
  next
    case (Some t)
    obtain c s e where t: "t = (c, s, e)" by (cases t)
    from Some t param_scan_bounds [of w c s e] have shorter: "length (drop e w) < length w"
      by auto
    show ?thesis
    proof (cases "param_value st w c s e")
      case (Inl f)
      with Some t show ?thesis by (simp add: expand_from.simps [of st w] prepend_def)
    next
      case (Inr v)
      have a: "expand_from st (drop e w) (Some ((b @ take s w) @ v))
                 = prepend ((b @ take s w) @ v) (expand_from st (drop e w) None)"
        by (rule less [OF shorter])
      have b: "expand_from st (drop e w) (Some (take s w @ v))
                 = prepend (take s w @ v) (expand_from st (drop e w) None)"
        by (rule less [OF shorter])
      show ?thesis
        using Some t Inr a b expand_from_not_null [of st "drop e w" None]
        by (cases "expand_from st (drop e w) None")
           (auto simp: expand_from.simps [of st w] build_str_def prepend_def split: option.splits)
    qed
  qed
qed

lemma expand_eq_from: "expand st w = expand_from st w None"
  by (cases "expand_from st w None") (simp_all add: expand_def build_str_reset_def)

lemma expand_special:
  assumes "CHR ''$'' \<notin> set pre" and "d = CHR ''$'' \<or> d = CHR ''!'' \<or> d = CHR ''?''"
    and "param_value st (pre @ CHR ''$'' # d # post) d (length pre) (length pre + 2) = Inr v"
  shows "expand st (pre @ CHR ''$'' # d # post) = prepend (pre @ v) (expand st post)"
  using assms(3)
  by (simp add: expand_eq_from expand_from.simps [of st "pre @ CHR ''$'' # d # post"]
      param_scan_special [OF assms(1,2)] build_str_def expand_from_acc)
lemma param_scan_from_shift:
  "param_scan_from (u @ post) (length u + i) = shift (length u) (param_scan_from post i)"
proof (induction post i rule: param_scan_from.induct)
  case (1 w i)
  let ?W = "u @ w" and ?I = "length u + i"
  show ?case
  proof (cases "length w \<le> i")
    case True
    then show ?thesis
      by (simp add: param_scan_from.simps [of ?W ?I] param_scan_from.simps [of w i] shift_def)
  next
    case inb: False
    show ?thesis
    proof (cases "strchr (drop i w) (CHR ''$'')")
      case None
      with inb show ?thesis
        by (simp add: param_scan_from.simps [of ?W ?I] param_scan_from.simps [of w i] shift_def)
    next
      case dollar: (Some k)
      have d: "drop (length u + i + k + 1) (u @ w) = drop (i + k + 1) w" by simp
      show ?thesis
      proof (cases "drop (i + k + 1) w")
        case Nil
        with inb dollar d "1.IH"(1) [OF inb dollar Nil] show ?thesis
          by (simp add: param_scan_from.simps [of ?W ?I] param_scan_from.simps [of w i] add.assoc)
      next
        case (Cons d' rest)
        show ?thesis
        proof (cases "d' = CHR ''$'' \<or> d' = CHR ''!'' \<or> d' = CHR ''?''")
          case True
          with inb dollar Cons d show ?thesis
            by (auto simp: param_scan_from.simps [of ?W ?I] param_scan_from.simps [of w i] shift_def)
        next
          case nspecial: False
          show ?thesis
          proof (cases "d' = CHR ''{''")
            case brace: True
            show ?thesis
            proof (cases "strchr rest (CHR ''}'')")
              case None
              with inb dollar Cons d nspecial brace "1.IH"(2) [OF inb dollar Cons nspecial brace None]
              show ?thesis
                by (simp add: param_scan_from.simps [of ?W ?I] param_scan_from.simps [of w i] add.assoc)
            next
              case (Some e')
              with inb dollar Cons d nspecial brace show ?thesis
                by (simp add: param_scan_from.simps [of ?W ?I] param_scan_from.simps [of w i] shift_def)
            qed
          next
            case False
            with inb dollar Cons d nspecial "1.IH"(3) [OF inb dollar Cons nspecial False]
            show ?thesis
              by (simp add: param_scan_from.simps [of ?W ?I] param_scan_from.simps [of w i] add.assoc)
          qed
        qed
      qed
    qed
  qed
qed

lemma param_scan_bare:
  assumes "CHR ''$'' \<notin> set pre" and "\<not> token_start post"
  shows "param_scan (pre @ CHR ''$'' # post) = shift (length pre + 1) (param_scan post)"
proof -
  let ?w = "pre @ CHR ''$'' # post"
  have step: "param_scan_from ?w 0 = param_scan_from ?w (length pre + 1)"
  proof (cases post)
    case Nil
    with assms show ?thesis
      by (subst param_scan_from.simps) (simp add: strchr_append_first)
  next
    case (Cons a list)
    with assms show ?thesis
      by (subst param_scan_from.simps) (simp add: strchr_append_first strchr_notin)
  qed
  have "param_scan_from ((pre @ [CHR ''$'']) @ post) (length (pre @ [CHR ''$'']) + 0)
          = shift (length (pre @ [CHR ''$''])) (param_scan_from post 0)"
    by (rule param_scan_from_shift)
  then show ?thesis using step by (simp add: param_scan_def)
qed

lemma param_value_shift:
  "param_value st (u @ post) c (length u + s) (length u + e) = param_value st post c s e"
  by (simp add: param_value_def Let_def add.assoc)

lemma expand_bare:
  assumes "CHR ''$'' \<notin> set pre" and "\<not> token_start post"
  shows "expand st (pre @ CHR ''$'' # post) = prepend (pre @ ''$'') (expand st post)"
proof -
  let ?w = "pre @ CHR ''$'' # post"
  show ?thesis
  proof (cases "param_scan post")
    case None
    then show ?thesis
      using param_scan_bare [OF assms]
      by (simp add: expand_eq_from expand_from.simps [of st ?w]
          expand_from.simps [of st post] shift_def build_str_def prepend_def)
  next
    case (Some t)
    obtain c s e where t: "t = (c, s, e)" by (cases t)
    have sc: "param_scan ?w = Some (c, Suc (length pre + s), Suc (length pre + e))"
      using param_scan_bare [OF assms] Some t by (simp add: shift_def)
    have pv: "param_value st ?w c (Suc (length pre + s)) (Suc (length pre + e))
                = param_value st post c s e"
      using param_value_shift [of st "pre @ ''$''" post c s e] by simp
    show ?thesis
    proof (cases "param_value st post c s e")
      case (Inl f)
      with Some t sc pv show ?thesis
        by (simp add: expand_eq_from expand_from.simps [of st ?w]
            expand_from.simps [of st post] prepend_def)
    next
      case (Inr v)
      have l: "expand_from st ?w None
                 = expand_from st (drop e post) (Some (pre @ CHR ''$'' # take s post @ v))"
        using sc pv Inr by (simp add: expand_from.simps [of st ?w] build_str_def)
      have r: "expand_from st post None = expand_from st (drop e post) (Some (take s post @ v))"
        using Some t Inr by (simp add: expand_from.simps [of st post] build_str_def)
      show ?thesis
        unfolding expand_eq_from l r
        using expand_from_not_null [of st "drop e post" None]
        by (cases "expand_from st (drop e post) None")
           (auto simp: expand_from_acc prepend_def split: option.splits)
    qed
  qed
qed

text \<open>
  C2. A word without parameter tokens expands to itself. Moreover a \<^verbatim>\<open>$\<close> that
  starts no token (nothing, or a character other than \<^verbatim>\<open>$\<close>, \<^verbatim>\<open>!\<close>,
  \<^verbatim>\<open>?\<close> and a closed \<^verbatim>\<open>{\<close> follows, which covers an unterminated
  \<^verbatim>\<open>${\<close>) is copied with the text before it, and the expansion goes on after it.
\<close>

theorem expand_identity:
  "(\<not> has_param_token w \<longrightarrow> expand st w = Inr (Some w)) \<and>
   (CHR ''$'' \<notin> set pre \<and> \<not> token_start post \<longrightarrow>
      expand st (pre @ ''$'' @ post) = prepend (pre @ ''$'') (expand st post))"
  using expand_no_token [of w st] expand_bare [of pre post st] by simp

theorem expand_identity_witness:
  "\<not> has_param_token ''a$b${c$'' \<and> expand st0 ''a$b${c$'' = Inr (Some ''a$b${c$'') \<and>
   CHR ''$'' \<notin> set ''cost'' \<and> \<not> token_start ''5 ${x $$'' \<and>
   expand st0 ''cost$5 ${x $$'' = Inr (Some ''cost$5 ${x 4242'')"
proof -
  have "expand st0 ''5 ${x $$'' = Inr (Some ''5 ${x 4242'')"
  by (simp add: expand_eq_from expand_from.simps param_scan_def param_scan_from.simps
      param_value_def build_str_def st0_def snprintf_d_pos getpid_def dec_str_def dec_nat.simps digit_char_def)
  then show ?thesis
  using expand_identity [of "''a$b${c$''" st0 "''cost''" "''5 ${x $$''"]
    by (simp add: prepend_def)
qed

text \<open>
  C4. \<^verbatim>\<open>$!\<close> expands to the decimal string of \<^verbatim>\<open>last_bg_pid\<close> when that is
  positive and to no characters when it is still 0, alone and inside a word.
\<close>

theorem expand_last_bg_pid:
  "expand st ''$!'' = Inr (Some (if 0 < last_bg_pid st then dec_str (last_bg_pid st) else '''')) \<and>
   (CHR ''$'' \<notin> set pre \<longrightarrow>
      expand st (pre @ ''$!'' @ post) =
        prepend (pre @ (if 0 < last_bg_pid st then dec_str (last_bg_pid st) else '''')) (expand st post))"
proof -
  have pv: "param_value st w (CHR ''!'') s e
              = Inr (if 0 < last_bg_pid st then dec_str (last_bg_pid st) else '''')" for w s e
    by (simp add: param_value_def snprintf_d_pos snprintf_d_nonpos)
  have ctx: "CHR ''$'' \<notin> set p \<Longrightarrow> expand st (p @ ''$!'' @ q) =
        prepend (p @ (if 0 < last_bg_pid st then dec_str (last_bg_pid st) else '''')) (expand st q)" for p q
    using expand_special [of p "CHR ''!''" st q, OF _ _ pv] by simp
  have e: "expand st [] = Inr (Some [])"
    by (rule expand_no_token) simp
  from ctx [of "[]" "[]"] e have "expand st ''$!'' = Inr (Some (if 0 < last_bg_pid st then dec_str (last_bg_pid st) else ''''))"
    by (simp add: prepend_def)
  with ctx show ?thesis by blast
qed

theorem expand_last_bg_pid_witness:
  "CHR ''$'' \<notin> set ''pid='' \<and>
   expand (st0\<lparr>last_bg_pid := 4321\<rparr>) ''pid=$!.'' = Inr (Some ''pid=4321.'') \<and>
   expand st0 ''pid=$!.'' = Inr (Some ''pid=.'') \<and> expand st0 ''$!'' = Inr (Some '''')"
proof -
  have e: "expand st ''.'' = Inr (Some ''.'')" for st
    by (rule expand_no_token) simp
  show ?thesis
    using expand_last_bg_pid [of "st0\<lparr>last_bg_pid := 4321\<rparr>" "''pid=''" "''.''"]
      expand_last_bg_pid [of st0 "''pid=''" "''.''"]
    by (simp add: e prepend_def st0_def dec_str_def dec_nat.simps digit_char_def)
qed

subsection \<open>The tokenizer\<close>

lemma peek_mid: "peek (pre @ x # post) (length pre) = Inr x"
  by (simp add: peek_def)

lemma skip_space_run:
  "NUL \<notin> set s \<Longrightarrow>
   skip_space (pre @ s @ NUL # g) (length pre) = Inr (length pre + length (takeWhile isspace s))"
proof (induction s arbitrary: pre)
  case Nil
  show ?case using peek_mid [of pre NUL g] by (simp add: skip_space.simps [of _ "length pre"])
next
  case (Cons x xs)
  have pk: "peek (pre @ (x # xs) @ NUL # g) (length pre) = Inr x"
    using peek_mid [of pre x "xs @ NUL # g"] by simp
  show ?case
  proof (cases "isspace x")
    case True
    have "skip_space ((pre @ [x]) @ xs @ NUL # g) (length (pre @ [x]))
            = Inr (length (pre @ [x]) + length (takeWhile isspace xs))"
      using Cons.prems by (intro Cons.IH) simp
    then show ?thesis using pk True Cons.prems
      by (auto simp: skip_space.simps [of _ "length pre"])
  next
    case False
    then show ?thesis using pk by (simp add: skip_space.simps [of _ "length pre"])
  qed
qed

lemma c_str_id: "NUL \<notin> set w \<Longrightarrow> c_str w = w"
  by (auto simp: c_str_def)

lemma takeWhile_dropWhile_app: "takeWhile P xs @ dropWhile P xs @ ys = xs @ ys"
  by (simp flip: append_assoc)

lemma bslash_not_space: "\<not> isspace BSLASH"
  by (simp add: isspace_def BSLASH_def)

lemma bslash_not_nul: "BSLASH \<noteq> NUL"
  by (simp add: NUL_def BSLASH_def)

lemma word_len_le: "word_len s \<le> length s"
  by (induction s rule: word_len.induct) auto

lemma unescape_space: "isspace c \<Longrightarrow> unescape (c # cs) = (c, False) # unescape cs"
  using bslash_not_space by (cases cs) auto

lemma dangling_space: "isspace c \<Longrightarrow> dangling (c # cs) = dangling cs"
  using bslash_not_space by (cases cs) auto

lemma read_word_items:
  assumes "NUL \<notin> set s" and "\<not> dangling s"
  shows "read_word (pre @ s @ NUL # g) (length pre) w
           = Inr (length pre + word_len s,
                  w @ map fst (takeWhile (\<lambda>it. \<not> blank it) (unescape s)))"
  using assms
proof (induction s arbitrary: pre w rule: word_len.induct)
  case 1
  show ?case using peek_mid [of pre NUL g] by (simp add: read_word.simps [of _ "length pre"])
next
  case (2 c)
  have pk: "peek (pre @ [c] @ NUL # g) (length pre) = Inr c"
    using peek_mid [of pre c "NUL # g"] by simp
  have c: "c \<noteq> NUL" "c \<noteq> BSLASH" using "2.prems" by auto
  show ?case
  proof (cases "isspace c")
    case True
    then show ?thesis using pk by (simp add: read_word.simps [of _ "length pre"] blank_def)
  next
    case False
    have "read_word ((pre @ [c]) @ [] @ NUL # g) (length (pre @ [c])) (w @ [c])
            = Inr (length (pre @ [c]), w @ [c])"
      using peek_mid [of "pre @ [c]" NUL g]
      by (simp add: read_word.simps [of _ "Suc (length pre)"])
    then show ?thesis using pk False c
      by (simp add: read_word.simps [of _ "length pre"] blank_def)
  qed
next
  case (3 c d cs)
  have pk: "peek (pre @ (c # d # cs) @ NUL # g) (length pre) = Inr c"
    using peek_mid [of pre c "d # cs @ NUL # g"] by simp
  have pk1: "peek (pre @ (c # d # cs) @ NUL # g) (length pre + 1) = Inr d"
    using peek_mid [of "pre @ [c]" d "cs @ NUL # g"] by simp
  have c: "c \<noteq> NUL" "d \<noteq> NUL" "NUL \<notin> set cs" using "3.prems" by auto
  show ?case
  proof (cases "isspace c")
    case True
    then have "c \<noteq> BSLASH" using bslash_not_space by auto
    then show ?thesis using pk True
      by (simp add: read_word.simps [of _ "length pre"] blank_def)
  next
    case nsp: False
    show ?thesis
    proof (cases "c = BSLASH")
      case True
      have nd: "\<not> dangling cs" using "3.prems"(2) True by simp
      have "read_word ((pre @ [c, d]) @ cs @ NUL # g) (length (pre @ [c, d])) (w @ [d])
              = Inr (length (pre @ [c, d]) + word_len cs,
                     (w @ [d]) @ map fst (takeWhile (\<lambda>it. \<not> blank it) (unescape cs)))"
        by (rule "3.IH"(1) [OF nsp True c(3) nd])
      then show ?thesis using pk pk1 nsp True bslash_not_nul
        by (simp add: read_word.simps [of _ "length pre"] blank_def)
    next
      case False
      have nd: "\<not> dangling (d # cs)" using "3.prems"(2) False by simp
      have "read_word ((pre @ [c]) @ (d # cs) @ NUL # g) (length (pre @ [c])) (w @ [c])
              = Inr (length (pre @ [c]) + word_len (d # cs),
                     (w @ [c]) @ map fst (takeWhile (\<lambda>it. \<not> blank it) (unescape (d # cs))))"
        using c by (intro "3.IH"(2) [OF nsp False _ nd]) simp
      then show ?thesis using pk nsp False c
        by (simp add: read_word.simps [of _ "length pre"] blank_def)
    qed
  qed
qed

lemma unescape_drop_word:
  "\<not> dangling s \<Longrightarrow>
   unescape (drop (word_len s) s) = dropWhile (\<lambda>it. \<not> blank it) (unescape s) \<and>
   \<not> dangling (drop (word_len s) s)"
proof (induction s rule: word_len.induct)
  case 1
  show ?case by simp
next
  case (2 c)
  then show ?case by (simp add: blank_def)
next
  case (3 c d cs)
  show ?case
  proof (cases "isspace c")
    case True
    then show ?thesis using "3.prems" bslash_not_space by (auto simp: blank_def)
  next
    case nsp: False
    show ?thesis
    proof (cases "c = BSLASH")
      case True
      then show ?thesis using "3.prems" "3.IH"(1) [OF nsp True] nsp by (simp add: blank_def)
    next
      case False
      then show ?thesis using "3.prems" "3.IH"(2) [OF nsp False] nsp by (simp add: blank_def)
    qed
  qed
qed

lemma unescape_skip_space:
  "unescape (dropWhile isspace s) = dropWhile blank (unescape s) \<and>
   dangling (dropWhile isspace s) = dangling s"
proof (induction s)
  case Nil
  show ?case by simp
next
  case (Cons c cs)
  show ?case
  proof (cases "isspace c")
    case True
    then show ?thesis using Cons by (simp add: unescape_space dangling_space blank_def)
  next
    case False
    then have "\<not> blank (hd (unescape (c # cs)))"
      by (cases cs) (auto simp: blank_def)
    moreover have "unescape (c # cs) \<noteq> []" by (cases cs) auto
    ultimately have "dropWhile blank (unescape (c # cs)) = unescape (c # cs)"
      by (cases "unescape (c # cs)") auto
    then show ?thesis using False by simp
  qed
qed

lemma runs_dropWhile: "runs sep (dropWhile sep xs) = runs sep xs"
  by (induction xs) simp_all

lemma word_chars_no_nul:
  "NUL \<notin> set s \<Longrightarrow> NUL \<notin> set (map fst (unescape s))"
  by (induction s rule: unescape.induct) auto

lemma word_len_pos: "s \<noteq> [] \<Longrightarrow> \<not> isspace (hd s) \<Longrightarrow> 0 < word_len s"
  by (induction s rule: word_len.induct) auto

lemma unescape_first:
  "s \<noteq> [] \<Longrightarrow> \<not> isspace (hd s) \<Longrightarrow> \<not> dangling s \<Longrightarrow>
   \<exists>it its. unescape s = it # its \<and> \<not> blank it \<and> (it = (CHR ''#'', False) \<longleftrightarrow> hd s = CHR ''#'')"
proof (induction s rule: unescape.induct)
  case 1
  then show ?case by simp
next
  case (2 c)
  then show ?case by (auto simp: blank_def)
next
  case (3 c d cs)
  then show ?case by (auto simp: blank_def BSLASH_def)
qed

lemma wordsplit_loop_items:
  assumes "NUL \<notin> set s" and "\<not> dangling s" and "s = [] \<or> \<not> isspace (hd s)"
    and "length words \<le> max_words"
  shows "wordsplit_loop max_words (pre @ s @ NUL # g) (length pre) words
           = Inr (words @ take (max_words - length words)
                    (map (map fst) (takeWhile (\<lambda>r. \<not> comment_run r) (runs blank (unescape s)))))"
  using assms
proof (induction "length s" arbitrary: s pre words rule: less_induct)
  case less
  let ?buf = "pre @ s @ NUL # g"
  show ?case
  proof (cases s)
    case Nil
    then show ?thesis using peek_mid [of pre NUL g]
      by (simp add: wordsplit_loop.simps [of _ _ "length pre"])
  next
    case (Cons x xs)
    have pk: "peek ?buf (length pre) = Inr x"
      using peek_mid [of pre x "xs @ NUL # g"] Cons by simp
    have x: "x \<noteq> NUL" "\<not> isspace x" "s \<noteq> []" "\<not> isspace (hd s)" "hd s = x"
      using less.prems Cons by auto
    obtain it its where u: "unescape s = it # its" "\<not> blank it"
      "it = (CHR ''#'', False) \<longleftrightarrow> x = CHR ''#''"
      using unescape_first [OF x(3,4) less.prems(2)] x(5) by auto
    let ?run = "takeWhile (\<lambda>it. \<not> blank it) (unescape s)"
    let ?word = "map fst ?run"
    let ?r = "drop (word_len s) s"
    let ?s' = "dropWhile isspace ?r"
    have run: "?run = it # takeWhile (\<lambda>it. \<not> blank it) its" using u by simp
    have ur: "unescape ?r = dropWhile (\<lambda>it. \<not> blank it) (unescape s)" "\<not> dangling ?r"
      using unescape_drop_word [OF less.prems(2)] by simp_all
    have us': "unescape ?s' = dropWhile blank (unescape ?r)" "\<not> dangling ?s'"
      using unescape_skip_space [of ?r] ur(2) by simp_all
    have sp: "runs blank (unescape s) = ?run # runs blank (unescape ?s')"
      using u by (simp add: us'(1) ur(1) runs_dropWhile)
    show ?thesis
    proof (cases "length words = max_words")
      case True
      then show ?thesis using pk x by (simp add: wordsplit_loop.simps [of _ _ "length pre"])
    next
      case room: False
      show ?thesis
      proof (cases "x = CHR ''#''")
        case True
        then show ?thesis using pk x room sp run u(3)
          by (simp add: wordsplit_loop.simps [of _ _ "length pre"] comment_run_def)
      next
        case False
        have rw: "read_word ?buf (length pre) [] = Inr (length pre + word_len s, ?word)"
          using read_word_items [OF less.prems(1,2), of pre g "[]"] by simp
        have decomp: "s = take (word_len s) s @ ?r" by simp
        have nul_r: "NUL \<notin> set ?r" using less.prems(1) by (auto dest: in_set_dropD)
        have lt: "length (take (word_len s) s) = word_len s" using word_len_le [of s] by simp
        have "skip_space ((pre @ take (word_len s) s) @ ?r @ NUL # g) (length (pre @ take (word_len s) s))
                = Inr (length (pre @ take (word_len s) s) + length (takeWhile isspace ?r))"
          by (rule skip_space_run [OF nul_r])
        moreover have "(pre @ take (word_len s) s) @ ?r @ NUL # g = ?buf"
          by (metis append_assoc append_take_drop_id)
        ultimately have sk: "skip_space ?buf (length pre + word_len s)
                = Inr (length pre + word_len s + length (takeWhile isspace ?r))"
          using lt by (simp only: length_append)
        let ?pre' = "pre @ take (word_len s) s @ takeWhile isspace ?r"
        have buf': "?pre' @ ?s' @ NUL # g = ?buf"
        proof -
          have "takeWhile isspace ?r @ ?s' = ?r" by simp
          then have "take (word_len s) s @ takeWhile isspace ?r @ ?s' = s"
            by (simp only: append_take_drop_id)
          then show ?thesis by (metis append_assoc)
        qed
        have len': "length ?pre' = length pre + word_len s + length (takeWhile isspace ?r)"
          using lt by simp
        have shorter: "length ?s' < length s"
        proof -
          have "length ?s' \<le> length ?r" by (rule length_dropWhile_le)
          moreover have "length ?r < length s"
            using word_len_pos [OF x(3,4)] x(3) by simp
          ultimately show ?thesis by simp
        qed
        have p1: "NUL \<notin> set ?s'" using nul_r by (auto dest!: set_dropWhileD)
        have p3: "?s' = [] \<or> \<not> isspace (hd ?s')"
          using hd_dropWhile [of isspace ?r] by blast
        have p4: "length (words @ [?word]) \<le> max_words" using room less.prems(4) by simp
        have rec: "wordsplit_loop max_words (?pre' @ ?s' @ NUL # g) (length ?pre') (words @ [?word])
                = Inr ((words @ [?word]) @ take (max_words - length (words @ [?word]))
                    (map (map fst) (takeWhile (\<lambda>r. \<not> comment_run r) (runs blank (unescape ?s')))))"
          by (rule less.hyps [OF shorter p1 us'(2) p3 p4])
        have "NUL \<notin> set (map fst (unescape s))" by (rule word_chars_no_nul [OF less.prems(1)])
        then have "NUL \<notin> set ?word" by (auto dest: set_takeWhileD)
        then have cs: "c_str ?word = ?word" by (rule c_str_id)
        have ncomment: "\<not> comment_run ?run" using False run u(3) by (simp add: comment_run_def)
        have tk: "take (max_words - length words) (?word # ys)
                    = ?word # take (max_words - length (words @ [?word])) ys" for ys
        proof -
          have "max_words - length words = Suc (max_words - length (words @ [?word]))"
            using room less.prems(4) by simp
          then show ?thesis by simp
        qed
        have "wordsplit_loop max_words ?buf (length pre) words
                = wordsplit_loop max_words ?buf (length ?pre') (words @ [?word])"
          using pk x room False rw sk cs len'
          by (simp add: wordsplit_loop.simps [of _ _ "length pre"] add.assoc)
        also have "\<dots> = Inr ((words @ [?word]) @ take (max_words - length (words @ [?word]))
                    (map (map fst) (takeWhile (\<lambda>r. \<not> comment_run r) (runs blank (unescape ?s')))))"
          using rec by (simp only: buf')
        finally show ?thesis using sp ncomment tk by simp
      qed
    qed
  qed
qed

lemma unescape_plain: "BSLASH \<notin> set s \<Longrightarrow> unescape s = map (\<lambda>c. (c, False)) s"
  by (induction s rule: unescape.induct) auto

lemma runs_map: "runs sep (map f xs) = map (map f) (runs (\<lambda>x. sep (f x)) xs)"
proof (induction "\<lambda>x. sep (f x)" xs rule: runs.induct)
  case 1
  show ?case by simp
next
  case (2 x xs)
  then show ?case by (simp add: takeWhile_map dropWhile_map comp_def)
qed

lemma spec_words_esc_plain:
  assumes "BSLASH \<notin> set line"
  shows "spec_words_esc max_words line = spec_words max_words line"
proof -
  let ?f = "\<lambda>c::char. (c, False)"
  have r: "runs blank (unescape line) = map (map ?f) (runs isspace line)"
    using runs_map [of blank ?f line] by (simp add: unescape_plain [OF assms] blank_def)
  have c: "comment_run (map ?f w) = comment_word w" for w
    by (cases w) (simp_all add: comment_run_def comment_word_def)
  have m: "map (map fst) (map (map ?f) ws) = ws" for ws :: "string list"
    by (induction ws) (simp_all add: comp_def)
  have tw: "takeWhile (\<lambda>r. \<not> comment_run r) (map (map ?f) ws)
          = map (map ?f) (takeWhile (\<lambda>w. \<not> comment_word w) ws)" for ws
    by (simp add: takeWhile_map comp_def c)
  have "map (map fst) (takeWhile (\<lambda>r. \<not> comment_run r) (runs blank (unescape line)))
          = takeWhile (\<lambda>w. \<not> comment_word w) (runs isspace line)"
    by (simp only: r tw m)
  then show ?thesis
    by (simp only: spec_words_esc_def spec_words_def)
qed

text \<open>
  C9, as stated: the words are exactly the maximal runs of non-whitespace characters (up
  to a comment word and the word limit). A backslash makes the next character part of
  the word and is dropped itself, so \<^verbatim>\<open>a\ b\<close> is the one word \<^verbatim>\<open>a b\<close> and not the
  two runs \<^verbatim>\<open>a\\<close> and \<^verbatim>\<open>b\<close>.
\<close>

theorem wordsplit_runs_counterexample:
  "wordsplit 1024 (''a'' @ [BSLASH] @ '' b'' @ [NUL]) = Inr [''a b''] \<and>
   spec_words 1024 (''a'' @ [BSLASH] @ '' b'') = [''a'' @ [BSLASH], ''b''] \<and>
   wordsplit 1024 (''a'' @ [BSLASH] @ '' b'' @ [NUL]) \<noteq> Inr (spec_words 1024 (''a'' @ [BSLASH] @ '' b''))"
  by (simp add: wordsplit_def wordsplit_loop.simps read_word.simps skip_space.simps peek_def
      NUL_def BSLASH_def isspace_def c_str_def spec_words_def comment_word_def)

text \<open>
  C9, amended: for a line that does not end in a lone backslash, the tokenizer returns
  the maximal runs of characters other than unescaped whitespace, each with its
  backslashes dropped and the escaped characters taken literally, up to the first run
  that starts with an unescaped \<^verbatim>\<open>#\<close> and at most \<open>max_words\<close> of them, whatever
  the buffer holds after the terminator. For a line without a backslash these are the
  maximal runs of non-whitespace characters, as the claim says.
\<close>

theorem wordsplit_words:
  assumes "NUL \<notin> set line" and "\<not> dangling line"
  shows "wordsplit max_words (line @ NUL # g) = Inr (spec_words_esc max_words line) \<and>
         (BSLASH \<notin> set line \<longrightarrow>
            wordsplit max_words (line @ NUL # g) = Inr (spec_words max_words line))"
proof -
  let ?lead = "takeWhile isspace line" and ?s = "dropWhile isspace line"
  have sk: "skip_space ([] @ line @ NUL # g) (length ([]::char list))
              = Inr (length ([]::char list) + length ?lead)"
    by (rule skip_space_run [OF assms(1)])
  have p1: "NUL \<notin> set ?s" using assms(1) by (auto dest!: set_dropWhileD)
  have p2: "\<not> dangling ?s" using assms(2) unescape_skip_space [of line] by simp
  have p3: "?s = [] \<or> \<not> isspace (hd ?s)" using hd_dropWhile [of isspace line] by blast
  have "wordsplit_loop max_words (?lead @ ?s @ NUL # g) (length ?lead) []
          = Inr ([] @ take (max_words - length ([]::string list))
                   (map (map fst) (takeWhile (\<lambda>r. \<not> comment_run r) (runs blank (unescape ?s)))))"
    by (rule wordsplit_loop_items [OF p1 p2 p3]) simp
  then have "wordsplit max_words (line @ NUL # g) = Inr (spec_words_esc max_words line)"
    using sk unescape_skip_space [of line]
    by (simp add: wordsplit_def spec_words_esc_def runs_dropWhile takeWhile_dropWhile_app)
  then show ?thesis by (simp add: spec_words_esc_plain)
qed

theorem wordsplit_words_witness:
  "NUL \<notin> set (''a'' @ [BSLASH] @ '' b  c'' @ [BSLASH] @ ''#d #e f'') \<and>
   \<not> dangling (''a'' @ [BSLASH] @ '' b  c'' @ [BSLASH] @ ''#d #e f'') \<and>
   wordsplit 1024 ((''a'' @ [BSLASH] @ '' b  c'' @ [BSLASH] @ ''#d #e f'') @ NUL # ''zz'')
     = Inr [''a b'', ''c#d''] \<and>
   NUL \<notin> set ''  echo a b  c #d e'' \<and> \<not> dangling ''  echo a b  c #d e'' \<and>
   BSLASH \<notin> set ''  echo a b  c #d e'' \<and>
   wordsplit 1024 (''  echo a b  c #d e'' @ NUL # ''zz'') = Inr [''echo'', ''a'', ''b'', ''c''] \<and>
   wordsplit 2 (''  echo a b  c #d e'' @ NUL # ''zz'') = Inr [''echo'', ''a''] \<and>
   wordsplit 1024 (''#comment and more'' @ NUL # ''zz'') = Inr []"
proof -
  have e: "spec_words_esc 1024 (''a'' @ [BSLASH] @ '' b  c'' @ [BSLASH] @ ''#d #e f'') = [''a b'', ''c#d'']"
    by (simp add: spec_words_esc_def comment_run_def blank_def BSLASH_def isspace_def)
  have p: "spec_words 1024 ''  echo a b  c #d e'' = [''echo'', ''a'', ''b'', ''c'']"
    "spec_words 2 ''  echo a b  c #d e'' = [''echo'', ''a'']"
    "spec_words 1024 ''#comment and more'' = []"
    by (simp_all add: spec_words_def comment_word_def isspace_def)
  have h: "NUL \<notin> set (''a'' @ [BSLASH] @ '' b  c'' @ [BSLASH] @ ''#d #e f'')"
    "\<not> dangling (''a'' @ [BSLASH] @ '' b  c'' @ [BSLASH] @ ''#d #e f'')"
    "NUL \<notin> set ''  echo a b  c #d e''" "\<not> dangling ''  echo a b  c #d e''"
    "BSLASH \<notin> set ''  echo a b  c #d e''"
    "NUL \<notin> set ''#comment and more''" "\<not> dangling ''#comment and more''"
    "BSLASH \<notin> set ''#comment and more''"
    by (simp_all add: NUL_def BSLASH_def)
  note a = wordsplit_words [OF h(1,2), of 1024 "''zz''", THEN conjunct1]
  note b = wordsplit_words [OF h(3,4), of 1024 "''zz''", THEN conjunct2, rule_format, OF h(5)]
  note c = wordsplit_words [OF h(3,4), of 2 "''zz''", THEN conjunct2, rule_format, OF h(5)]
  note d = wordsplit_words [OF h(6,7), of 1024 "''zz''", THEN conjunct2, rule_format, OF h(8)]
  show ?thesis
    using a b c d h(1-5) unfolding e p by (intro conjI)
qed

text \<open>
  C10. When a backslash is the last character of the line, the byte stored is the
  terminator and the scan goes on behind it: with \<^verbatim>\<open>hello world\<close> left in the buffer
  by an earlier line the words are \<^verbatim>\<open>ls\<close>, an empty word and \<^verbatim>\<open>world\<close>, and with
  nothing allocated behind the terminator the read is outside the buffer.
\<close>

theorem wordsplit_reads_past_terminator:
  "wordsplit 1024 (''ls '' @ [BSLASH, NUL] @ ''hello world'' @ [CHR 0x0A, NUL]) = Inr [''ls'', '''', ''world''] \<and>
   wordsplit 1024 (''ls '' @ [BSLASH, NUL]) = Inl ReadPastBuffer"
  by (simp add: wordsplit_def wordsplit_loop.simps read_word.simps skip_space.simps peek_def
      NUL_def BSLASH_def isspace_def c_str_def)

subsection \<open>The status of a foreground command\<close>

lemma expand_status:
  assumes "0 \<le> last_status st"
  shows "expand st ''$?'' = Inr (Some (dec_str (last_status st)))"
proof -
  have pv: "param_value st ([] @ CHR ''$'' # CHR ''?'' # []) (CHR ''?'') (length ([]::string)) (length ([]::string) + 2)
              = Inr (dec_str (last_status st))"
    using assms by (simp add: param_value_def snprintf_d_pos dec_str_0)
  have e: "expand st [] = Inr (Some [])"
    by (rule expand_no_token) simp
  from expand_special [of "[]" "CHR ''?''" st "[]", OF _ _ pv] e show ?thesis
    by (simp add: prepend_def)
qed

lemma wait_exited:
  assumes "WIFEXITED s"
  shows "\<not> WIFSIGNALED s" and "\<not> WIFSTOPPED s" and "0 \<le> WEXITSTATUS s"
proof -
  from assms have t: "s mod 128 = 0" by (simp add: WIFEXITED_def WTERMSIG_def)
  then show "\<not> WIFSIGNALED s" by (simp add: WIFSIGNALED_def signed_char_def)
  have "s mod 256 mod 128 = s mod 128" by (simp add: mod_mod_cancel)
  with t show "\<not> WIFSTOPPED s" by (auto simp: WIFSTOPPED_def)
  show "0 \<le> WEXITSTATUS s" by (simp add: WEXITSTATUS_def)
qed

text \<open>
  C3. For a foreground external command whose \<^verbatim>\<open>fork\<close> succeeded: when the child
  exited normally (\<^verbatim>\<open>WIFEXITED\<close>) the shell returns to the prompt with
  \<^verbatim>\<open>last_status\<close> the child's exit code, when a signal ended it (\<^verbatim>\<open>WIFSIGNALED\<close>)
  with 128 plus the signal number, and \<^verbatim>\<open>$?\<close> then expands to the decimal string of
  that status; the decimal string of 0 is \<^verbatim>\<open>"0"\<close>.
\<close>

theorem foreground_status:
  assumes "tokens c 0 = Some (Some name)" and "name \<noteq> ''exit''" and "name \<noteq> ''cd''"
    and "\<not> bg c" and "fork_pid \<noteq> - 1"
  shows "(WIFEXITED child_exit \<longrightarrow>
            snd (execute sys fork_pid child_exit st c) = Prompt \<and>
            last_status (fst (execute sys fork_pid child_exit st c)) = WEXITSTATUS child_exit \<and>
            expand (fst (execute sys fork_pid child_exit st c)) ''$?''
              = Inr (Some (dec_str (WEXITSTATUS child_exit)))) \<and>
         (WIFSIGNALED child_exit \<longrightarrow>
            snd (execute sys fork_pid child_exit st c) = Prompt \<and>
            last_status (fst (execute sys fork_pid child_exit st c)) = 128 + WTERMSIG child_exit \<and>
            expand (fst (execute sys fork_pid child_exit st c)) ''$?''
              = Inr (Some (dec_str (128 + WTERMSIG child_exit)))) \<and>
         dec_str 0 = ''0''"
proof -
  have ex: "execute sys fork_pid child_exit st c = external_parent st c fork_pid child_exit"
    using assms(1-3) by (simp add: execute_def)
  have a: ?thesis if "WIFEXITED child_exit"
  proof -
    let ?st = "st\<lparr>last_status := WEXITSTATUS child_exit\<rparr>"
    have "execute sys fork_pid child_exit st c = (?st, Prompt)"
      using ex assms(4,5) wait_exited(1,2) [OF that] by (simp add: external_parent_def)
    moreover have "expand ?st ''$?'' = Inr (Some (dec_str (last_status ?st)))"
      by (rule expand_status) (simp add: wait_exited(3) [OF that])
    moreover have "\<not> WIFSIGNALED child_exit" by (rule wait_exited(1) [OF that])
    ultimately show ?thesis by (simp add: dec_str_0)
  qed
  have b: ?thesis if "WIFSIGNALED child_exit"
  proof -
    let ?st = "st\<lparr>last_status := 128 + WTERMSIG child_exit\<rparr>"
    have "execute sys fork_pid child_exit st c = (?st, Prompt)"
      using ex assms(4,5) that by (simp add: external_parent_def)
    moreover have "expand ?st ''$?'' = Inr (Some (dec_str (last_status ?st)))"
      by (rule expand_status) (simp add: WTERMSIG_def)
    moreover have "\<not> WIFEXITED child_exit" using wait_exited(1) that by blast
    ultimately show ?thesis by (simp add: dec_str_0)
  qed
  show ?thesis using a b by (cases "WIFEXITED child_exit"; cases "WIFSIGNALED child_exit") (auto simp: dec_str_0)
qed

theorem foreground_status_witness:
  "WIFEXITED 768 \<and> WIFSIGNALED 9 \<and> WIFSIGNALED 139 \<and> WIFEXITED 0 \<and>
   last_status (fst (execute os_ok 77 768 st0 (cmd_of [''false'']))) = 3 \<and>
   expand (fst (execute os_ok 77 768 st0 (cmd_of [''false'']))) ''$?'' = Inr (Some ''3'') \<and>
   last_status (fst (execute os_ok 77 9 st0 (cmd_of [''sleep'', ''5'']))) = 137 \<and>
   expand (fst (execute os_ok 77 9 st0 (cmd_of [''sleep'', ''5'']))) ''$?'' = Inr (Some ''137'') \<and>
   expand (fst (execute os_ok 77 139 st0 (cmd_of [''crash'']))) ''$?'' = Inr (Some ''139'') \<and>
   expand (fst (execute os_ok 77 0 (st0\<lparr>last_status := 7\<rparr>) (cmd_of [''true'']))) ''$?'' = Inr (Some ''0'')"
proof -
  have m: "WIFEXITED 768" "WIFSIGNALED 9" "WIFSIGNALED 139" "WIFEXITED 0"
    "WEXITSTATUS 768 = 3" "WTERMSIG 9 = 9" "WTERMSIG 139 = 11" "WEXITSTATUS 0 = 0"
    by (simp_all add: WIFEXITED_def WIFSIGNALED_def WTERMSIG_def WEXITSTATUS_def signed_char_def)
  have d: "dec_str 3 = ''3''" "dec_str 137 = ''137''" "dec_str 139 = ''139''"
    by (simp_all add: dec_str_def dec_nat.simps digit_char_def)
  have t: "tokens (cmd_of (a # as)) 0 = Some (Some a)" "\<not> bg (cmd_of (a # as))" for a as
    by (simp_all add: cmd_of_def)
  have n: "''false'' \<noteq> ''exit''" "''false'' \<noteq> ''cd''" "''sleep'' \<noteq> ''exit''" "''sleep'' \<noteq> ''cd''"
    "''crash'' \<noteq> ''exit''" "''crash'' \<noteq> ''cd''" "''true'' \<noteq> ''exit''" "''true'' \<noteq> ''cd''" "(77::int) \<noteq> - 1"
    by simp_all
  note i1 = foreground_status [of "cmd_of [''false'']" "''false''" 77 768 os_ok st0,
      OF t(1) n(1) n(2) t(2) n(9)]
  note i2 = foreground_status [of "cmd_of [''sleep'', ''5'']" "''sleep''" 77 9 os_ok st0,
      OF t(1) n(3) n(4) t(2) n(9)]
  note i3 = foreground_status [of "cmd_of [''crash'']" "''crash''" 77 139 os_ok st0,
      OF t(1) n(5) n(6) t(2) n(9)]
  note i4 = foreground_status [of "cmd_of [''true'']" "''true''" 77 0 os_ok "st0\<lparr>last_status := 7\<rparr>",
      OF t(1) n(7) n(8) t(2) n(9)]
  show ?thesis
    using i1 i2 i3 i4 m d by simp
qed

subsection \<open>Named parameters\<close>

lemma expand_named:
  assumes "CHR ''$'' \<notin> set pre" and "CHR ''}'' \<notin> set name" and "length name < 64"
  shows "expand st (pre @ ''${'' @ name @ ''}'' @ post)
           = prepend (pre @ (case getenv st name of None \<Rightarrow> [] | Some v \<Rightarrow> v)) (expand st post)"
proof -
  let ?w = "pre @ CHR ''$'' # CHR ''{'' # name @ CHR ''}'' # post"
  have sc: "param_scan ?w = Some (CHR ''{'', length pre, length pre + length name + 3)"
    by (rule param_scan_brace [OF assms(1,2)])
  have pv: "param_value st ?w (CHR ''{'') (length pre) (length pre + length name + 3)
              = Inr (case getenv st name of None \<Rightarrow> [] | Some v \<Rightarrow> v)"
    using assms(3) by (simp add: param_value_def split: option.splits)
  have dr: "drop (length name + 3) (CHR ''$'' # CHR ''{'' # name @ CHR ''}'' # post) = post"
    by (simp add: numeral_3_eq_3)
  show ?thesis
    using sc pv dr
    by (simp add: expand_eq_from expand_from.simps [of st ?w] build_str_def expand_from_acc)
qed

lemma expand_named_overflow:
  assumes "CHR ''$'' \<notin> set pre" and "CHR ''}'' \<notin> set name" and "64 \<le> length name"
  shows "expand st (pre @ ''${'' @ name @ ''}'' @ post) = Inl ParamArgOverflow"
proof -
  let ?w = "pre @ CHR ''$'' # CHR ''{'' # name @ CHR ''}'' # post"
  have sc: "param_scan ?w = Some (CHR ''{'', length pre, length pre + length name + 3)"
    by (rule param_scan_brace [OF assms(1,2)])
  have pv: "param_value st ?w (CHR ''{'') (length pre) (length pre + length name + 3)
              = Inl ParamArgOverflow"
    using assms(3) by (simp add: param_value_def)
  show ?thesis
    using sc pv
    by (simp add: expand_eq_from expand_from.simps [of st ?w])
qed

text \<open>
  C5. A name of 64 bytes fills \<^verbatim>\<open>param_arg[64]\<close> and leaves \<^verbatim>\<open>getenv\<close> no
  terminator (a longer one overruns the array): the lookup of \<^verbatim>\<open>${NAME}\<close> is
  defined for a name of 63 bytes and undefined for one of 64, so it does not hold for
  names of any length.
\<close>

theorem expand_name_of_64_bytes:
  "expand st (''${'' @ replicate 64 (CHR ''A'') @ ''}'') = Inl ParamArgOverflow \<and>
   expand (st\<lparr>environ := [replicate 63 (CHR ''A'') \<mapsto> ''v'']\<rparr>) (''${'' @ replicate 63 (CHR ''A'') @ ''}'')
     = Inr (Some ''v'')"
proof -
  have e: "expand s [] = Inr (Some [])" for s
    by (rule expand_no_token) simp
  have "expand st ([] @ ''${'' @ replicate 64 (CHR ''A'') @ ''}'' @ []) = Inl ParamArgOverflow"
    by (rule expand_named_overflow) simp_all
  moreover have "expand (st\<lparr>environ := [replicate 63 (CHR ''A'') \<mapsto> ''v'']\<rparr>)
      ([] @ ''${'' @ replicate 63 (CHR ''A'') @ ''}'' @ []) = Inr (Some ''v'')"
    by (subst expand_named) (simp_all add: getenv_def e prepend_def)
  ultimately show ?thesis by simp
qed

subsection \<open>The built-in \<^verbatim>\<open>exit\<close>\<close>

lemma isdigit_digit_char: "d < 10 \<Longrightarrow> isdigit (digit_char d)"
proof -
  assume "d < 10"
  then have "d \<in> {0, 1, 2, 3, 4, 5, 6, 7, 8, 9}" by auto
  then show ?thesis by (auto simp: digit_char_def isdigit_def)
qed

lemma digit_val_digit_char: "d < 10 \<Longrightarrow> digit_val (digit_char d) = int d"
proof -
  assume "d < 10"
  then have "d \<in> {0, 1, 2, 3, 4, 5, 6, 7, 8, 9}" by auto
  then show ?thesis by (auto simp: digit_char_def digit_val_def)
qed

lemma not_space_digit_char: "d < 10 \<Longrightarrow> \<not> isspace (digit_char d) \<and> digit_char d \<noteq> CHR ''-'' \<and> digit_char d \<noteq> CHR ''+''"
proof -
  assume "d < 10"
  then have "d \<in> {0, 1, 2, 3, 4, 5, 6, 7, 8, 9}" by auto
  then show ?thesis by (auto simp: digit_char_def isspace_def)
qed

lemma atoi_digits_snoc:
  "\<forall>x\<in>set xs. isdigit x \<Longrightarrow> isdigit d \<Longrightarrow>
   atoi_digits acc (xs @ [d]) = 10 * atoi_digits acc xs + digit_val d"
  by (induction xs arbitrary: acc) simp_all

lemma dec_nat_digits: "\<forall>x\<in>set (dec_nat n). isdigit x"
proof (induction n rule: dec_nat.induct)
  case (1 n)
  show ?case
  proof (cases "n < 10")
    case True
    then show ?thesis by (simp add: dec_nat.simps [of n] isdigit_digit_char)
  next
    case False
    then show ?thesis using "1.IH" by (simp add: dec_nat.simps [of n] isdigit_digit_char)
  qed
qed

lemma atoi_digits_dec_nat: "atoi_digits 0 (dec_nat n) = int n"
proof (induction n rule: dec_nat.induct)
  case (1 n)
  show ?case
  proof (cases "n < 10")
    case True
    then show ?thesis
      by (simp add: dec_nat.simps [of n] isdigit_digit_char digit_val_digit_char)
  next
    case False
    have "atoi_digits 0 (dec_nat (n div 10) @ [digit_char (n mod 10)])
            = 10 * atoi_digits 0 (dec_nat (n div 10)) + digit_val (digit_char (n mod 10))"
      by (rule atoi_digits_snoc) (simp_all add: dec_nat_digits isdigit_digit_char)
    moreover have "10 * int (n div 10) + int (n mod 10) = int n"
      by (simp add: zdiv_int zmod_int)
    ultimately show ?thesis using False "1.IH"
      by (simp add: dec_nat.simps [of n] digit_val_digit_char)
  qed
qed

lemma dec_nat_hd: "\<exists>d rest. d < 10 \<and> dec_nat n = digit_char d # rest"
proof (induction n rule: dec_nat.induct)
  case (1 n)
  show ?case
  proof (cases "n < 10")
    case True
    then show ?thesis by (auto simp: dec_nat.simps [of n])
  next
    case False
    with "1.IH" obtain d rest where "d < 10" "dec_nat (n div 10) = digit_char d # rest" by auto
    then show ?thesis using False by (auto simp: dec_nat.simps [of n])
  qed
qed

lemma atoi_dec_str:
  assumes "0 \<le> v" and "v \<le> INT_MAX"
  shows "atoi (dec_str v) = Inr v"
proof -
  obtain d rest where d: "d < 10" "dec_nat (nat v) = digit_char d # rest"
    using dec_nat_hd by blast
  have "atoi_digits 0 (digit_char d # rest) = v"
    using atoi_digits_dec_nat [of "nat v"] d(2) assms(1) by simp
  then show ?thesis
    using assms d not_space_digit_char [OF d(1)]
    by (simp add: atoi_def dec_str_def INT_MIN_def INT_MAX_def Let_def del: atoi_digits.simps)
qed

lemma exit_default:
  assumes "n_tokens c = 2" and "0 \<le> last_status st" and "last_status st \<le> INT_MAX"
  shows "builtin_exit st c = (st, Exit (last_status st))"
  using assms by (simp add: builtin_exit_def default_exit_def expand_status atoi_dec_str)

lemma exit_too_many:
  "n_tokens c \<ge> 4 \<Longrightarrow> builtin_exit st c = (report E2BIG st, Prompt)"
  by (simp add: builtin_exit_def)

lemma exit_not_digit:
  "n_tokens c = 3 \<Longrightarrow> token_at c 1 = Inr arg \<Longrightarrow> \<not> isdigit (first_byte arg) \<Longrightarrow>
   builtin_exit st c = (report EINVAL st, Prompt)"
  by (simp add: builtin_exit_def)

lemma exit_digit_first:
  "n_tokens c = 3 \<Longrightarrow> token_at c 1 = Inr arg \<Longrightarrow> isdigit (first_byte arg) \<Longrightarrow> atoi arg = Inr n \<Longrightarrow>
   builtin_exit st c = (st, Exit n)"
  by (simp add: builtin_exit_def)

text \<open>
  C7. \<^verbatim>\<open>exit 1abc\<close> ends the shell with status 1: the argument is checked by its first
  byte only, and \<^verbatim>\<open>atoi\<close> stops at the first byte that is not a digit.
\<close>

theorem exit_accepts_trailing_garbage:
  "run_line os_ok 0 0 (line_of ''exit 1abc'') (replicate 8 None, st0)
     = ((Some ''exit'' # Some ''1abc'' # replicate 6 None, st0), Exit 1) \<and>
   execute sys fork_pid child_exit st (cmd_of [''exit'', ''1abc'']) = (st, Exit 1)"
proof -
  have ws: "wordsplit 8 (line_of ''exit 1abc'') = Inr [''exit'', ''1abc'']"
    by (simp add: line_of_def wordsplit_def wordsplit_loop.simps read_word.simps skip_space.simps
        peek_def NUL_def BSLASH_def isspace_def c_str_def)
  have ex: "expand_words st0 [''exit'', ''1abc''] = Inr [Some ''exit'', Some ''1abc'']"
    by (simp add: expand_no_token)
  have at: "atoi ''1abc'' = Inr 1"
    by (simp add: atoi_def isspace_def isdigit_def digit_val_def INT_MIN_def INT_MAX_def)
  have b: "execute sys fork_pid child_exit st (cmd_of [''exit'', ''1abc'']) = (st, Exit 1)" for sys fork_pid child_exit st
    by (simp add: execute_def builtin_exit_def cmd_of_def token_at_def first_byte_def isdigit_def at)
  have r: "replicate 8 None = None # None # replicate 6 (None :: string option)"
    by (simp add: numeral_eq_Suc)
  have "run_line os_ok 0 0 (line_of ''exit 1abc'') (replicate 8 None, st0)
     = ((Some ''exit'' # Some ''1abc'' # replicate 6 None, st0), Exit 1)"
    by (simp add: run_line_def ws expand_no_token r parse_def parse_loop.simps read_slot_def tok_store_def
        no_cmd_def execute_def builtin_exit_def token_at_def first_byte_def isdigit_def at)
  then show ?thesis
    using b by simp
qed

subsection \<open>The built-in \<^verbatim>\<open>cd\<close>\<close>

lemma expand_home:
  "expand st ''${HOME}'' = Inr (Some (case getenv st ''HOME'' of None \<Rightarrow> [] | Some h \<Rightarrow> h))"
proof -
  have e: "expand st [] = Inr (Some [])"
    by (rule expand_no_token) simp
  have "expand st ([] @ ''${'' @ ''HOME'' @ ''}'' @ [])
          = prepend ([] @ (case getenv st ''HOME'' of None \<Rightarrow> [] | Some v \<Rightarrow> v)) (expand st [])"
    by (rule expand_named) simp_all
  then show ?thesis by (simp add: e prepend_def)
qed

text \<open>
  C8. For \<^verbatim>\<open>cd\<close>: without an argument the shell enters the directory that
  \<^verbatim>\<open>chdir\<close> reaches from the value of \<^verbatim>\<open>HOME\<close> (the empty string when unset); with one
  argument that \<^verbatim>\<open>access\<close> rejects or \<^verbatim>\<open>chdir\<close> cannot enter, an error is reported,
  the working directory stays and the shell returns to the prompt; with two or more
  arguments \<^verbatim>\<open>E2BIG\<close> is reported, the working directory stays and the shell returns to
  the prompt.
\<close>

theorem cd_builtin:
  assumes "tokens c 0 = Some (Some ''cd'')"
  shows "(n_tokens c = 2 \<and>
          chdir_to sys (cwd st) (case getenv st ''HOME'' of None \<Rightarrow> [] | Some h \<Rightarrow> h) = Some d \<longrightarrow>
            execute sys fork_pid child_exit st c = (st\<lparr>cwd := d\<rparr>, Prompt)) \<and>
         (n_tokens c = 3 \<and> token_at c 1 = Inr path \<and>
          (\<not> access_f_ok sys (cwd st) path \<or> chdir_to sys (cwd st) path = None) \<longrightarrow>
            snd (execute sys fork_pid child_exit st c) = Prompt \<and>
            cwd (fst (execute sys fork_pid child_exit st c)) = cwd st \<and>
            (\<exists>e. stderr_log (fst (execute sys fork_pid child_exit st c)) = stderr_log st @ [ErrorNo e])) \<and>
         (4 \<le> n_tokens c \<longrightarrow>
            snd (execute sys fork_pid child_exit st c) = Prompt \<and>
            cwd (fst (execute sys fork_pid child_exit st c)) = cwd st \<and>
            stderr_log (fst (execute sys fork_pid child_exit st c)) = stderr_log st @ [ErrorNo E2BIG])"
proof -
  have ex: "execute sys fork_pid child_exit st c = builtin_cd sys st c"
    using assms by (simp add: execute_def)
  have home: "builtin_cd sys st c = (st\<lparr>cwd := d\<rparr>, Prompt)"
    if "n_tokens c = 2"
      and "chdir_to sys (cwd st) (case getenv st ''HOME'' of None \<Rightarrow> [] | Some h \<Rightarrow> h) = Some d"
    using that by (simp add: builtin_cd_def expand_home chdir_def)
  have bad: "snd (builtin_cd sys st c) = Prompt \<and> cwd (fst (builtin_cd sys st c)) = cwd st \<and>
      (\<exists>e. stderr_log (fst (builtin_cd sys st c)) = stderr_log st @ [ErrorNo e])"
    if "n_tokens c = 3" and "token_at c 1 = Inr path"
      and "\<not> access_f_ok sys (cwd st) path \<or> chdir_to sys (cwd st) path = None"
    using that by (auto simp: builtin_cd_def chdir_def report_def)
  have many: "builtin_cd sys st c = (report E2BIG st, Prompt)" if "4 \<le> n_tokens c"
    using that by (simp add: builtin_cd_def)
  show ?thesis
    unfolding ex using home bad many by (auto simp: report_def)
qed

theorem cd_builtin_witness:
  "tokens (cmd_of [''cd'']) 0 = Some (Some ''cd'') \<and>
   execute os_dirs 0 0 (st0\<lparr>environ := [''HOME'' \<mapsto> ''/home/u'']\<rparr>) (cmd_of [''cd''])
     = (st0\<lparr>environ := [''HOME'' \<mapsto> ''/home/u''], cwd := ''/home/u''\<rparr>, Prompt) \<and>
   \<not> access_f_ok os_dirs (cwd st0) ''/nonexistent'' \<and>
   cwd (fst (execute os_dirs 0 0 st0 (cmd_of [''cd'', ''/nonexistent'']))) = ''/'' \<and>
   stderr_log (fst (execute os_dirs 0 0 st0 (cmd_of [''cd'', ''/nonexistent'']))) = [ErrorNo ENOTDIR] \<and>
   chdir_to os_dirs (cwd st0) ''/root'' = None \<and>
   cwd (fst (execute os_dirs 0 0 st0 (cmd_of [''cd'', ''/root'']))) = ''/'' \<and>
   stderr_log (fst (execute os_dirs 0 0 st0 (cmd_of [''cd'', ''/root'']))) = [ErrorNo ENOENT] \<and>
   cwd (fst (execute os_dirs 0 0 st0 (cmd_of [''cd'', ''/home/u'', ''/tmp'']))) = ''/'' \<and>
   stderr_log (fst (execute os_dirs 0 0 st0 (cmd_of [''cd'', ''/home/u'', ''/tmp'']))) = [ErrorNo E2BIG]"
proof -
  have t: "tokens (cmd_of (a # as)) 0 = Some (Some a)" for a as
    by (simp add: cmd_of_def)
  note i1 = cd_builtin [of "cmd_of [''cd'']" os_dirs "st0\<lparr>environ := [''HOME'' \<mapsto> ''/home/u'']\<rparr>"
      "''/home/u''" 0 0 "''x''", OF t]
  note i2 = cd_builtin [of "cmd_of [''cd'', ''/nonexistent'']" os_dirs st0 "''x''" 0 0 "''/nonexistent''", OF t]
  note i3 = cd_builtin [of "cmd_of [''cd'', ''/root'']" os_dirs st0 "''x''" 0 0 "''/root''", OF t]
  note i4 = cd_builtin [of "cmd_of [''cd'', ''/home/u'', ''/tmp'']" os_dirs st0 "''x''" 0 0 "''x''", OF t]
  show ?thesis
    using i1 i2 i3 i4
    by (simp add: cmd_of_def os_dirs_def os_ok_def st0_def getenv_def token_at_def
        execute_def builtin_cd_def chdir_def report_def)
qed

subsection \<open>The parsing loop\<close>

lemma open_write_files:
  "files st p = Some [] \<Longrightarrow> files (fst (open_write sys st w)) p = Some []"
  by (cases w) (auto simp: open_write_def fopen_w_def report_def Let_def)

lemma open_write_target:
  "fopen_w_ok sys t \<Longrightarrow> files (fst (open_write sys st (Some t))) t = Some []"
  by (auto simp: open_write_def fopen_w_def report_def Let_def)

lemma open_write_opens:
  "opens sys t \<Longrightarrow> snd (open_write sys st (Some t)) = Inr ()"
  by (auto simp: open_write_def opens_def Let_def)

lemma parse_loop_write:
  assumes "i < n" and "read_slot words i = Inr (Some ''>'')" and "read_slot words (i + 1) = Inr t"
  shows "parse_loop sys words n i op st c =
           (case open_write sys st t of
              (st', Inl stop) \<Rightarrow> (st', Inl stop)
            | (st', Inr u) \<Rightarrow> parse_loop sys words n (i + 2) (op + 2) st' (c\<lparr>write_file := t\<rparr>))"
  using assms by (subst parse_loop.simps) simp

lemma parse_loop_read:
  assumes "i < n" and "read_slot words i = Inr (Some ''<'')" and "read_slot words (i + 1) = Inr t"
  shows "parse_loop sys words n i op st c =
           parse_loop sys words n (i + 2) (op + 2) st (c\<lparr>read_file := t\<rparr>)"
  using assms by (subst parse_loop.simps) simp

lemma parse_loop_append:
  assumes "i < n" and "read_slot words i = Inr (Some ''>>'')" and "read_slot words (i + 1) = Inr t"
  shows "parse_loop sys words n i op st c =
           parse_loop sys words n (i + 2) (op + 2) st (c\<lparr>append_file := t\<rparr>)"
  using assms by (subst parse_loop.simps) simp

lemma parse_loop_token:
  assumes "i < n" and "read_slot words i = Inr (Some w)" and "\<not> (i = n - 1 \<and> w = ''&'')"
    and "\<not> is_redir w" and "op \<le> i" and "i < length words"
  shows "parse_loop sys words n i op st c =
           parse_loop sys words n (i + 1) op st
             (c\<lparr>tokens := (tokens c)(i - op \<mapsto> Some w), n_tokens := n_tokens c + 1\<rparr>)"
proof -
  have "tok_store (length words) (tokens c) (int i - int op) (Some w)
          = Inr ((tokens c)(i - op \<mapsto> Some w))"
    using assms(5,6) by (simp add: tok_store_def nat_diff_distrib')
  then show ?thesis
    using assms(1-4) by (subst parse_loop.simps) (auto simp: is_redir_def)
qed

lemma open_write_files_pair:
  "open_write sys st w = (st', r) \<Longrightarrow> files st p = Some [] \<Longrightarrow> files st' p = Some []"
  using open_write_files [of st p sys w] by simp

lemma parse_loop_files:
  "files st p = Some [] \<Longrightarrow> files (fst (parse_loop sys words n i op st c)) p = Some []"
proof (induction "n - i" arbitrary: i op st c rule: less_induct)
  case less
  show ?case
  proof (cases "i < n")
    case False
    then show ?thesis using less.prems by (simp add: parse_loop.simps [of sys words n i])
  next
    case True
    have rec: "files (fst (parse_loop sys words n i' op' st' c')) p = Some []"
      if "i < i'" and "files st' p = Some []" for i' op' st' c'
      using less.hyps [of i' st' op' c'] True that by simp
    show ?thesis
      using True less.prems
      by (subst parse_loop.simps)
         (auto split: sum.splits option.splits prod.splits
               intro!: rec dest: open_write_files_pair)
  qed
qed

lemma read_slot_at:
  "k < length words \<Longrightarrow> words ! k = v \<Longrightarrow> read_slot words k = Inr v"
  by (simp add: read_slot_def)

lemma parse_loop_at_target:
  assumes "fopen_w_ok sys tgt" and "i + 2 \<le> n" and "n \<le> length words"
    and "\<forall>k<2. words ! (i + k) = Some ([''>'', tgt] ! k)"
  shows "files (fst (parse_loop sys words n i op st c)) tgt = Some []"
proof -
  have i: "i < n" "i < length words" "i + 1 < length words" using assms by simp_all
  have w0: "words ! i = Some ''>''" using assms(4) [rule_format, of 0] by simp
  have w1: "words ! (i + 1) = Some tgt" using assms(4) [rule_format, of 1] by simp
  note step = parse_loop_write [OF i(1) read_slot_at [OF i(2) w0] read_slot_at [OF i(3) w1],
      of sys op st c]
  obtain st' r where ow: "open_write sys st (Some tgt) = (st', r)"
    by (cases "open_write sys st (Some tgt)")
  have f': "files st' tgt = Some []"
    using open_write_target [OF assms(1), of st] ow by simp
  show ?thesis
    using step ow f' parse_loop_files [OF f'] by (cases r) simp_all
qed

lemma parse_loop_to_target:
  assumes "complete pre" and "\<forall>p\<in>set (write_targets pre). opens sys p" and "fopen_w_ok sys tgt"
    and "i + length pre + 2 \<le> n" and "n \<le> length words"
    and "\<forall>k<length pre + 2. words ! (i + k) = Some ((pre @ [''>'', tgt]) ! k)"
    and "op \<le> i"
  shows "files (fst (parse_loop sys words n i op st c)) tgt = Some []"
  using assms
proof (induction pre arbitrary: i op st c rule: complete.induct)
  case 1
  then show ?case by (intro parse_loop_at_target) simp_all
next
  case (2 w)
  have "i \<noteq> n - 1" using "2.prems"(4) by simp
  then have i: "i < n" "i < length words" "\<not> (i = n - 1 \<and> w = ''&'')" using "2.prems" by simp_all
  have w0: "words ! i = Some w" using "2.prems"(6) [rule_format, of 0] by simp
  have nr: "\<not> is_redir w" using "2.prems"(1) by simp
  note step = parse_loop_token [OF i(1) read_slot_at [OF i(2) w0] i(3) nr "2.prems"(7) i(2),
      of sys st c]
  have nxt: "\<forall>k<length ([]::string list) + 2. words ! (i + 1 + k) = Some (([] @ [''>'', tgt]) ! k)"
  proof (intro allI impI)
    fix k assume "k < length ([]::string list) + 2"
    then have "Suc k < length [w] + 2" by simp
    from "2.prems"(6) [rule_format, OF this] show "words ! (i + 1 + k) = Some (([] @ [''>'', tgt]) ! k)"
      by simp
  qed
  have "files (fst (parse_loop sys words n (i + 1) op st
      (c\<lparr>tokens := (tokens c)(i - op \<mapsto> Some w), n_tokens := n_tokens c + 1\<rparr>))) tgt = Some []"
    using "2.prems" nxt by (intro parse_loop_at_target) simp_all
  then show ?case using step by simp
next
  case (3 w t rest)
  have "i \<noteq> n - 1" using "3.prems"(4) by simp
  then have i: "i < n" "i < length words" "i + 1 < length words" "\<not> (i = n - 1 \<and> w = ''&'')"
    using "3.prems" by simp_all
  have w0: "words ! i = Some w" using "3.prems"(6) [rule_format, of 0] by simp
  have w1: "words ! (i + 1) = Some t" using "3.prems"(6) [rule_format, of 1] by simp
  show ?case
  proof (cases "is_redir w")
    case True
    have c': "complete rest" using "3.prems"(1) True by simp
    have t': "\<forall>p\<in>set (write_targets rest). opens sys p"
      using "3.prems"(2) True by (auto split: if_splits)
    have nxt: "\<forall>k<length rest + 2. words ! (i + 2 + k) = Some ((rest @ [''>'', tgt]) ! k)"
    proof (intro allI impI)
      fix k assume "k < length rest + 2"
      then have "Suc (Suc k) < length (w # t # rest) + 2" by simp
      from "3.prems"(6) [rule_format, OF this]
      show "words ! (i + 2 + k) = Some ((rest @ [''>'', tgt]) ! k)" by simp
    qed
    have b: "i + 2 + length rest + 2 \<le> n" "op + 2 \<le> i + 2" using "3.prems" by simp_all
    note ih = "3.IH"(1) [OF True c' t' "3.prems"(3) b(1) "3.prems"(5) nxt b(2)]
    from True consider (wr) "w = ''>''" | (rd) "w = ''<''" | (ap) "w = ''>>''"
      by (auto simp: is_redir_def)
    then show ?thesis
    proof cases
      case wr
      have op: "opens sys t" using "3.prems"(2) wr by simp
      obtain st' r where ow: "open_write sys st (Some t) = (st', r)"
        by (cases "open_write sys st (Some t)")
      have r: "r = Inr ()" using open_write_opens [OF op, of st] ow by simp
      show ?thesis
        using parse_loop_write [OF i(1) read_slot_at [OF i(2) w0 [unfolded wr]] read_slot_at [OF i(3) w1],
            of sys op st c] ow r ih [of st' "c\<lparr>write_file := Some t\<rparr>"]
        by simp
    next
      case rd
      show ?thesis
        using parse_loop_read [OF i(1) read_slot_at [OF i(2) w0 [unfolded rd]] read_slot_at [OF i(3) w1],
            of sys op st c] ih [of st "c\<lparr>read_file := Some t\<rparr>"]
        by simp
    next
      case ap
      show ?thesis
        using parse_loop_append [OF i(1) read_slot_at [OF i(2) w0 [unfolded ap]] read_slot_at [OF i(3) w1],
            of sys op st c] ih [of st "c\<lparr>append_file := Some t\<rparr>"]
        by simp
    qed
  next
    case False
    have c': "complete (t # rest)" using "3.prems"(1) False by simp
    have t': "\<forall>p\<in>set (write_targets (t # rest)). opens sys p"
      using "3.prems"(2) False by (auto simp: is_redir_def split: if_splits)
    have nxt: "\<forall>k<length (t # rest) + 2. words ! (i + 1 + k) = Some (((t # rest) @ [''>'', tgt]) ! k)"
    proof (intro allI impI)
      fix k assume "k < length (t # rest) + 2"
      then have "Suc k < length (w # t # rest) + 2" by simp
      from "3.prems"(6) [rule_format, OF this]
      show "words ! (i + 1 + k) = Some (((t # rest) @ [''>'', tgt]) ! k)" by simp
    qed
    have b: "i + 1 + length (t # rest) + 2 \<le> n" "op \<le> i + 1" using "3.prems" by simp_all
    note ih = "3.IH"(2) [OF False c' t' "3.prems"(3) b(1) "3.prems"(5) nxt b(2)]
    show ?thesis
      using parse_loop_token [OF i(1) read_slot_at [OF i(2) w0] i(4) False "3.prems"(7) i(2), of sys st c]
        ih [of st "c\<lparr>tokens := (tokens c)(i - op \<mapsto> Some w), n_tokens := n_tokens c + 1\<rparr>"]
      by simp
  qed
qed

lemma fst_parse: "fst (parse sys words n st) = fst (parse_loop sys words n 0 0 st no_cmd)"
  by (simp add: parse_def split: prod.splits sum.splits)

text \<open>
  C6. When the words hold the operator \<^verbatim>\<open>>\<close> followed by a word (after a complete
  sequence whose own \<^verbatim>\<open>>\<close> targets can be opened), and the target can be opened for
  writing, the state that the parsing loop returns has the target as an empty file,
  whether it existed or not, whatever follows, and whatever the argument vector is
  (empty, a built-in or an external command): the command is run only afterwards,
  from that state.
\<close>

theorem redirect_truncates_at_parse:
  assumes "complete pre" and "\<forall>p\<in>set (write_targets pre). opens sys p" and "fopen_w_ok sys tgt"
  shows "files (fst (parse sys (map Some (pre @ ''>'' # tgt # post) @ stale)
                        (length (pre @ ''>'' # tgt # post)) st)) tgt = Some []"
proof -
  let ?ws = "pre @ ''>'' # tgt # post"
  let ?words = "map Some ?ws @ stale"
  have nth: "\<forall>k<length pre + 2. ?words ! (0 + k) = Some ((pre @ [''>'', tgt]) ! k)"
  proof (intro allI impI)
    fix k assume k: "k < length pre + 2"
    then have lt: "k < length (map Some ?ws)" by simp
    have "?words ! k = map Some ?ws ! k" using lt by (simp only: nth_append if_True)
    also have "\<dots> = Some (?ws ! k)" using lt by (simp only: nth_map length_map)
    finally have a: "?words ! k = Some (?ws ! k)" .
    have lt': "k < length (pre @ [''>'', tgt])" using k by simp
    have "?ws = (pre @ [''>'', tgt]) @ post" by simp
    then have "?ws ! k = ((pre @ [''>'', tgt]) @ post) ! k" by (rule arg_cong)
    also have "\<dots> = (pre @ [''>'', tgt]) ! k" using lt' by (simp only: nth_append if_True)
    finally show "?words ! (0 + k) = Some ((pre @ [''>'', tgt]) ! k)" using a by simp
  qed
  have "files (fst (parse_loop sys ?words (length ?ws) 0 0 st no_cmd)) tgt = Some []"
    by (rule parse_loop_to_target [OF assms(1,2,3) _ _ nth]) simp_all
  then show ?thesis by (simp only: fst_parse)
qed

theorem redirect_truncates_at_parse_witness:
  "complete [''cat'', ''<'', ''in''] \<and> fopen_w_ok os_ok ''out'' \<and>
   files st_old ''out'' = Some ''old contents'' \<and>
   files (fst (parse os_ok [Some ''cat'', Some ''<'', Some ''in'', Some ''>'', Some ''out'', None] 5 st_old)) ''out'' = Some [] \<and>
   files (fst (parse os_ok [Some ''exit'', Some ''>'', Some ''new'', Some ''7''] 4 st_old)) ''new'' = Some [] \<and>
   files (fst (parse os_ok [Some ''>'', Some ''out'', None, None] 2 st_old)) ''out'' = Some [] \<and>
   snd (parse os_ok [Some ''>'', Some ''out'', None, None] 2 st_old)
     = Inr (no_cmd\<lparr>write_file := Some ''out'', tokens := [0 \<mapsto> None], n_tokens := 1\<rparr>)"
proof -
  have ok: "opens os_ok p" "fopen_w_ok os_ok p" for p
    by (simp_all add: opens_def os_ok_def)
  note i1 = redirect_truncates_at_parse [of "[''cat'', ''<'', ''in'']" os_ok "''out''" "[]" "[None]" st_old]
  note i2 = redirect_truncates_at_parse [of "[''exit'']" os_ok "''new''" "[''7'']" "[]" st_old]
  note i3 = redirect_truncates_at_parse [of "[]" os_ok "''out''" "[]" "[None, None]" st_old]
  have p: "snd (parse os_ok [Some ''>'', Some ''out'', None, None] 2 st_old)
     = Inr (no_cmd\<lparr>write_file := Some ''out'', tokens := [0 \<mapsto> None], n_tokens := 1\<rparr>)"
    by (simp add: parse_def parse_loop.simps read_slot_def tok_store_def open_write_def os_ok_def
        no_cmd_def fopen_w_def st_old_def st0_def)
  have j1: "files (fst (parse os_ok [Some ''cat'', Some ''<'', Some ''in'', Some ''>'', Some ''out'', None] 5 st_old)) ''out'' = Some []"
    using i1 by (simp add: ok is_redir_def eval_nat_numeral)
  have j2: "files (fst (parse os_ok [Some ''exit'', Some ''>'', Some ''new'', Some ''7''] 4 st_old)) ''new'' = Some []"
    using i2 by (simp add: ok is_redir_def eval_nat_numeral)
  have j3: "files (fst (parse os_ok [Some ''>'', Some ''out'', None, None] 2 st_old)) ''out'' = Some []"
    using i3 by (simp add: ok is_redir_def eval_nat_numeral)
  show ?thesis
    using j1 j2 j3 p by (simp add: ok is_redir_def st_old_def)
qed

text \<open>The index \<open>i - op\<close> of the store into \<^verbatim>\<open>tokens\<close> is never negative.\<close>

lemma parse_loop_index:
  "op \<le> i \<Longrightarrow> parse_loop sys words n i op st c = (st', Inr (i', op', c')) \<Longrightarrow> op' \<le> i'"
proof (induction "n - i" arbitrary: i op st c rule: less_induct)
  case less
  show ?case
  proof (cases "i < n")
    case False
    then show ?thesis using less.prems by (simp add: parse_loop.simps [of sys words n i])
  next
    case True
    have rec: "op' \<le> i'"
      if "i < j" and "q \<le> j" and "parse_loop sys words n j q s d = (st', Inr (i', op', c'))" for j q s d
      using less.hyps [of j q s d] True that by simp
    show ?thesis
      using True less.prems(2) less.prems(1)
      by (subst (asm) parse_loop.simps)
         (auto split: sum.splits option.splits prod.splits if_splits
               elim!: rec [rotated 2])
  qed
qed

lemma parse_sentinel_index:
  "parse_loop sys words n 0 0 st no_cmd = (st', Inr (i', op', c')) \<Longrightarrow> 0 \<le> int i' - int op'"
  using parse_loop_index [of 0 0 sys words n st no_cmd st' i' op' c'] by simp

text \<open>
  C1. With \<^verbatim>\<open>>\<close> or \<^verbatim>\<open><\<close> as the last word the loop reports no error and takes
  \<^verbatim>\<open>words[n_words]\<close> as the target: the word an earlier line left in that slot (the
  file \<^verbatim>\<open>world\<close> is created after \<^verbatim>\<open>echo hello world\<close> and \<^verbatim>\<open>cat >\<close>), the null
  pointer, or a read outside the array when the line has \<^verbatim>\<open>MAX_WORDS\<close> words.
\<close>

theorem redirect_as_last_word:
  "parse os_ok [Some ''cat'', Some ''>'', Some ''world'', None] 2 st0
     = (st0\<lparr>files := [''world'' \<mapsto> []], modes := [''world'' \<mapsto> 511]\<rparr>,
        Inr (no_cmd\<lparr>write_file := Some ''world'', tokens := [0 \<mapsto> Some ''cat'', 1 \<mapsto> None], n_tokens := 2\<rparr>)) \<and>
   parse os_ok [Some ''cat'', Some ''<'', None, None] 2 st0
     = (st0, Inr (no_cmd\<lparr>read_file := None, tokens := [0 \<mapsto> Some ''cat'', 1 \<mapsto> None], n_tokens := 2\<rparr>)) \<and>
   parse os_ok [Some ''cat'', Some ''<''] 2 st0 = (st0, Inl (Undefined WordsOutOfBounds)) \<and>
   fst (fst (run_line os_ok 78 0 (line_of ''cat >'')
          (fst (run_line os_ok 77 0 (line_of ''echo hello world'') (replicate 4 None, st0)))))
     = [Some ''cat'', Some ''>'', Some ''world'', None]"
proof -
  have ws: "wordsplit (Suc (Suc (Suc (Suc 0)))) (line_of ''echo hello world'') = Inr [''echo'', ''hello'', ''world'']"
    "wordsplit (Suc (Suc (Suc (Suc 0)))) (line_of ''cat >'') = Inr [''cat'', ''>'']"
    by (simp_all add: line_of_def wordsplit_def wordsplit_loop.simps read_word.simps skip_space.simps
        peek_def NUL_def BSLASH_def isspace_def c_str_def)
  have r: "replicate 4 None = [None, None, None, None :: string option]"
    by (simp add: numeral_eq_Suc)
  have l1: "fst (run_line os_ok 77 0 (line_of ''echo hello world'') (replicate 4 None, st0))
      = ([Some ''echo'', Some ''hello'', Some ''world'', None], st0\<lparr>last_status := 0\<rparr>)"
    by (simp add: run_line_def ws expand_no_token r parse_def parse_loop.simps read_slot_def tok_store_def
        no_cmd_def execute_def external_parent_def WIFSIGNALED_def WIFSTOPPED_def WEXITSTATUS_def
        signed_char_def)
  have l2: "fst (fst (run_line os_ok 78 0 (line_of ''cat >'')
      ([Some ''echo'', Some ''hello'', Some ''world'', None], st0\<lparr>last_status := 0\<rparr>)))
     = [Some ''cat'', Some ''>'', Some ''world'', None]"
    by (simp add: run_line_def ws expand_no_token parse_def parse_loop.simps read_slot_def tok_store_def
        no_cmd_def execute_def external_parent_def WIFSIGNALED_def WIFSTOPPED_def WEXITSTATUS_def
        signed_char_def open_write_def os_ok_def fopen_w_def split: prod.splits)
  have p1: "parse os_ok [Some ''cat'', Some ''>'', Some ''world'', None] 2 st0
     = (st0\<lparr>files := [''world'' \<mapsto> []], modes := [''world'' \<mapsto> 511]\<rparr>,
        Inr (no_cmd\<lparr>write_file := Some ''world'', tokens := [0 \<mapsto> Some ''cat'', 1 \<mapsto> None], n_tokens := 2\<rparr>))"
    by (simp add: parse_def parse_loop.simps read_slot_def tok_store_def open_write_def os_ok_def
        no_cmd_def fopen_w_def st0_def)
  have p2: "parse os_ok [Some ''cat'', Some ''<'', None, None] 2 st0
     = (st0, Inr (no_cmd\<lparr>read_file := None, tokens := [0 \<mapsto> Some ''cat'', 1 \<mapsto> None], n_tokens := 2\<rparr>))"
    by (simp add: parse_def parse_loop.simps read_slot_def tok_store_def no_cmd_def)
  have p3: "parse os_ok [Some ''cat'', Some ''<''] 2 st0 = (st0, Inl (Undefined WordsOutOfBounds))"
    by (simp add: parse_def parse_loop.simps read_slot_def tok_store_def no_cmd_def)
  show ?thesis
    using p1 p2 p3 l2 by (simp only: l1) 
qed

end
